theory Spec2Isabelle
  imports Main "HOL-Library.AList"
begin

section \<open>Text helpers of the platform\<close>

text \<open>
  Strings are byte lists (UTF-8). The characters that cannot be written inside a string
  literal are named here.
\<close>

abbreviation LF :: char where "LF \<equiv> CHR 0x0A"
abbreviation DQ :: char where "DQ \<equiv> CHR 0x22"
abbreviation BSL :: char where "BSL \<equiv> CHR 0x5C"

definition digit_char :: "nat \<Rightarrow> char" where
  "digit_char d = ''0123456789'' ! (d mod 10)"

definition hex_lower :: "nat \<Rightarrow> char" where
  "hex_lower d = ''0123456789abcdef'' ! (d mod 16)"

definition hex_upper :: "nat \<Rightarrow> char" where
  "hex_upper d = ''0123456789ABCDEF'' ! (d mod 16)"

text \<open>Number-to-string conversion of an integral JavaScript number (template literals, \<open>String\<close>).\<close>

fun show_nat :: "nat \<Rightarrow> string" where
  "show_nat n = (if n < 10 then [digit_char n] else show_nat (n div 10) @ [digit_char (n mod 10)])"

declare show_nat.simps [simp del]

definition show_int :: "int \<Rightarrow> string" where
  "show_int i = (if i < 0 then CHR ''-'' # show_nat (nat (- i)) else show_nat (nat i))"

text \<open>\<open>Array.prototype.join\<close> on strings.\<close>

fun join :: "string \<Rightarrow> string list \<Rightarrow> string" where
  "join sep [] = []"
| "join sep [x] = x"
| "join sep (x # y # ys) = x @ sep @ join sep (y # ys)"

section \<open>JSON values and \<open>JSON.stringify\<close>\<close>

text \<open>
  Payloads are JSON values. Numbers are restricted to integral ones, which is all the
  properties below need; object members keep their insertion order.
\<close>

datatype json =
    JNull
  | JBool bool
  | JNum int
  | JStr string
  | JArr "json list"
  | JObj "(string \<times> json) list"

definition escape_char :: "char \<Rightarrow> string" where
  "escape_char c =
     (if c = DQ then [BSL, DQ]
      else if c = BSL then [BSL, BSL]
      else if c = CHR 0x08 then [BSL, CHR ''b'']
      else if c = CHR 0x0C then [BSL, CHR ''f'']
      else if c = LF then [BSL, CHR ''n'']
      else if c = CHR 0x0D then [BSL, CHR ''r'']
      else if c = CHR 0x09 then [BSL, CHR ''t'']
      else if (of_char c :: nat) < 32
        then [BSL, CHR ''u'', CHR ''0'', CHR ''0'', hex_lower (of_char c div 16), hex_lower (of_char c)]
      else [c])"

definition quote :: "string \<Rightarrow> string" where
  "quote s = DQ # concat (map escape_char s) @ [DQ]"

fun JSON_stringify :: "json \<Rightarrow> string"
  and stringify_elems :: "json list \<Rightarrow> string"
  and stringify_members :: "(string \<times> json) list \<Rightarrow> string" where
  "JSON_stringify JNull = ''null''"
| "JSON_stringify (JBool b) = (if b then ''true'' else ''false'')"
| "JSON_stringify (JNum i) = show_int i"
| "JSON_stringify (JStr s) = quote s"
| "JSON_stringify (JArr xs) = ''['' @ stringify_elems xs @ '']''"
| "JSON_stringify (JObj kvs) = ''{'' @ stringify_members kvs @ ''}''"
| "stringify_elems [] = []"
| "stringify_elems [x] = JSON_stringify x"
| "stringify_elems (x # y # ys) = JSON_stringify x @ '','' @ stringify_elems (y # ys)"
| "stringify_members [] = []"
| "stringify_members [(k, v)] = quote k @ '':'' @ JSON_stringify v"
| "stringify_members ((k, v) # m # ms) =
     quote k @ '':'' @ JSON_stringify v @ '','' @ stringify_members (m # ms)"

section \<open>Server connection (\<open>SSEClient\<close>, packages/server/src/client.ts)\<close>

text \<open>
  A \<open>ServerEvent\<close>: the optional fields are \<open>None\<close> when \<open>undefined\<close>.
\<close>

record server_event =
  ev_event :: "string option"
  ev_data :: "json option"
  ev_id :: "string option"
  ev_retry :: "int option"

text \<open>
  The write end of the connection's \<open>TransformStream\<close>. A write or a close on a
  stream that is errored (the peer is gone) or already closed rejects.
\<close>

datatype wstate = Writable | Errored | WClosed

datatype error = StreamError

record sse_client =
  id_c :: string
  userId :: "string option"
  closed :: bool
  heartbeat :: "nat option"
  writer :: wstate
  written :: "string list"

text \<open>
  An asynchronous operation settles with the updated object and \<open>None\<close> when its promise
  resolves, \<open>Some e\<close> when it rejects with \<open>e\<close>.
\<close>

type_synonym 'a settled = "error option \<times> 'a"

definition writer_write :: "string \<Rightarrow> sse_client \<Rightarrow> sse_client settled" where
  "writer_write buf c =
     (if writer c = Writable then (None, c\<lparr>written := written c @ [buf]\<rparr>)
      else (Some StreamError, c))"

definition writer_close :: "sse_client \<Rightarrow> sse_client settled" where
  "writer_close c =
     (if writer c = Writable then (None, c\<lparr>writer := WClosed\<rparr>)
      else (Some StreamError, c))"

definition formatMessage :: "server_event \<Rightarrow> string" where
  "formatMessage sseEvent =
     (let chunk0 = [];
          chunk1 = (case ev_id sseEvent of
                      Some i \<Rightarrow> if i \<noteq> [] then chunk0 @ ''id: '' @ i @ [LF] else chunk0
                    | None \<Rightarrow> chunk0);
          chunk2 = (case ev_event sseEvent of
                      Some e \<Rightarrow> if e \<noteq> [] then chunk1 @ ''event: '' @ e @ [LF] else chunk1
                    | None \<Rightarrow> chunk1);
          chunk3 = (case ev_retry sseEvent of
                      Some r \<Rightarrow> if r \<noteq> 0 then chunk2 @ ''retry: '' @ show_int r @ [LF] else chunk2
                    | None \<Rightarrow> chunk2);
          chunk4 = (case ev_data sseEvent of
                      Some d \<Rightarrow>
                        (let serialized = (case d of JStr s \<Rightarrow> s | _ \<Rightarrow> JSON_stringify d)
                         in chunk3 @ ''data: '' @ serialized @ [LF])
                    | None \<Rightarrow> chunk3)
      in chunk4 @ [LF])"

definition stopHeartbeat :: "sse_client \<Rightarrow> sse_client" where
  "stopHeartbeat c = c\<lparr>heartbeat := None\<rparr>"

definition close :: "sse_client \<Rightarrow> sse_client settled" where
  "close c =
     (if closed c then (None, c)
      else (let c1 = c\<lparr>closed := True\<rparr>;
                c2 = stopHeartbeat c1
            in case writer_close c2 of
                 (None, c3) \<Rightarrow> (None, c3)
               | (Some e, c3) \<Rightarrow> (None, c3)))"

definition writeRaw :: "string \<Rightarrow> sse_client \<Rightarrow> sse_client settled" where
  "writeRaw buf c =
     (if closed c then (None, c)
      else (case writer_write buf c of
              (None, c1) \<Rightarrow> (None, c1)
            | (Some e, c1) \<Rightarrow> close c1))"

definition send :: "server_event \<Rightarrow> sse_client \<Rightarrow> sse_client settled" where
  "send evt c = writeRaw (formatMessage evt) c"

definition ping :: "nat \<Rightarrow> sse_client \<Rightarrow> sse_client settled" where
  "ping now c = writeRaw ('': ping '' @ show_nat now @ [LF, LF]) c"

definition startHeartbeat :: "nat \<Rightarrow> sse_client \<Rightarrow> sse_client" where
  "startHeartbeat ms c = (stopHeartbeat c)\<lparr>heartbeat := Some ms\<rparr>"

text \<open>
  One firing of the interval callback installed by \<open>startHeartbeat\<close>:
  \<open>this.ping().then(...).catch(() => this.close())\<close>.
\<close>

definition heartbeat_tick :: "nat \<Rightarrow> sse_client \<Rightarrow> sse_client settled" where
  "heartbeat_tick now c =
     (case ping now c of
        (None, c1) \<Rightarrow> (None, c1)
      | (Some e, c1) \<Rightarrow> close c1)"

definition isClosed :: "sse_client \<Rightarrow> bool" where
  "isClosed c = closed c"

section \<open>Properties of the server connection\<close>

lemma close_resolves: "fst (close c) = None"
  by (simp add: close_def Let_def writer_close_def stopHeartbeat_def)

lemma close_closed: "closed (snd (close c))"
  by (simp add: close_def Let_def writer_close_def stopHeartbeat_def)

lemma close_when_closed: "closed c \<Longrightarrow> close c = (None, c)"
  by (simp add: close_def)

lemma writeRaw_resolves: "fst (writeRaw buf c) = None"
  by (simp add: writeRaw_def writer_write_def close_resolves)

lemma send_resolves: "fst (send evt c) = None"
  by (simp add: send_def writeRaw_resolves)

text \<open>
  C6. \<open>close()\<close> is idempotent: a second call settles without changing anything. Once
  \<open>closed\<close> is set, every \<open>send\<close>, every \<open>ping\<close> and every firing of the heartbeat
  interval resolves and leaves the whole connection, the pipe included, as it was.
\<close>

theorem close_idempotent_and_closed_inert:
  "close (snd (close c)) = (None, snd (close c))
   \<and> (closed c \<longrightarrow>
        close c = (None, c)
      \<and> send evt c = (None, c)
      \<and> ping now c = (None, c)
      \<and> heartbeat_tick now c = (None, c)
      \<and> written (snd (send evt c)) = written c
      \<and> written (snd (heartbeat_tick now c)) = written c)"
  by (simp add: close_when_closed close_closed send_def ping_def heartbeat_tick_def writeRaw_def)

theorem close_idempotent_and_closed_inert_witness:
  "(let c = \<lparr>id_c = ''c1'', userId = None, closed = False, heartbeat = Some 15000,
             writer = Writable, written = []\<rparr>;
        d = snd (close c);
        evt = \<lparr>ev_event = Some ''x'', ev_data = Some (JNum 1), ev_id = None, ev_retry = None\<rparr>
    in closed d \<and> heartbeat d = None \<and> writer d = WClosed
       \<and> close d = (None, d) \<and> send evt d = (None, d) \<and> heartbeat_tick 7 d = (None, d)
       \<and> written (snd (send evt c)) = [''event: x'' @ [LF] @ ''data: 1'' @ [LF, LF]])"
  using close_idempotent_and_closed_inert
    [of "\<lparr>id_c = ''c1'', userId = None, closed = False, heartbeat = Some 15000,
             writer = Writable, written = []\<rparr>"
        "\<lparr>ev_event = Some ''x'', ev_data = Some (JNum 1), ev_id = None, ev_retry = None\<rparr>" 7]
  by (simp add: Let_def close_def writer_close_def stopHeartbeat_def send_def writeRaw_def
      writer_write_def formatMessage_def show_int_def show_nat.simps digit_char_def
      heartbeat_tick_def ping_def)

section \<open>Connection registry (\<open>SSEManager\<close>, manager.ts)\<close>

record sse_manager =
  objs :: "nat \<Rightarrow> sse_client"
  clientsById :: "(string \<times> nat) list"
  clientIdsByUser :: "(string \<times> string list) list"

definition set_add :: "'a \<Rightarrow> 'a list \<Rightarrow> 'a list" where
  "set_add x xs = (if x \<in> set xs then xs else xs @ [x])"

definition on_client :: "nat \<Rightarrow> (sse_client \<Rightarrow> sse_client settled) \<Rightarrow> sse_manager \<Rightarrow> sse_manager settled" where
  "on_client r f m = (case f (objs m r) of (e, c) \<Rightarrow> (e, m\<lparr>objs := (objs m)(r := c)\<rparr>))"

fun promise_all :: "('s \<Rightarrow> 's settled) list \<Rightarrow> 's \<Rightarrow> 's settled" where
  "promise_all [] s = (None, s)"
| "promise_all (p # ps) s =
     (case p s of (e, s1) \<Rightarrow>
        (case promise_all ps s1 of (e', s2) \<Rightarrow>
           ((case e of None \<Rightarrow> e' | Some x \<Rightarrow> Some x), s2)))"

definition new_manager :: "(nat \<Rightarrow> sse_client) \<Rightarrow> sse_manager" where
  "new_manager h = \<lparr>objs = h, clientsById = [], clientIdsByUser = []\<rparr>"

definition addClient :: "nat \<Rightarrow> sse_manager \<Rightarrow> sse_manager" where
  "addClient r m =
     (let client = objs m r;
          m1 = m\<lparr>clientsById := AList.update (id_c client) r (clientsById m)\<rparr>
      in case userId client of
           None \<Rightarrow> m1
         | Some u \<Rightarrow>
             if u = [] then m1
             else (let set0 = (case map_of (clientIdsByUser m1) u of None \<Rightarrow> [] | Some s \<Rightarrow> s)
                   in m1\<lparr>clientIdsByUser :=
                          AList.update u (set_add (id_c client) set0) (clientIdsByUser m1)\<rparr>))"

definition removeClient :: "string \<Rightarrow> sse_manager \<Rightarrow> sse_manager settled" where
  "removeClient clientId m =
     (case map_of (clientsById m) clientId of
        None \<Rightarrow> (None, m)
      | Some r \<Rightarrow>
          (let client = objs m r;
               m1 = m\<lparr>clientsById := AList.delete clientId (clientsById m)\<rparr>;
               m2 = (case userId client of
                       None \<Rightarrow> m1
                     | Some u \<Rightarrow>
                         if u = [] then m1
                         else (case map_of (clientIdsByUser m1) u of
                                 None \<Rightarrow> m1
                               | Some s \<Rightarrow>
                                   (let s1 = removeAll clientId s
                                    in if s1 = []
                                       then m1\<lparr>clientIdsByUser := AList.delete u (clientIdsByUser m1)\<rparr>
                                       else m1\<lparr>clientIdsByUser := AList.update u s1 (clientIdsByUser m1)\<rparr>)))
           in on_client r close m2))"

definition sendToClient :: "string \<Rightarrow> server_event \<Rightarrow> sse_manager \<Rightarrow> sse_manager settled" where
  "sendToClient clientId event m =
     (case map_of (clientsById m) clientId of
        None \<Rightarrow> (None, m)
      | Some r \<Rightarrow> on_client r (send event) m)"

definition sendToUser :: "string \<Rightarrow> server_event \<Rightarrow> sse_manager \<Rightarrow> sse_manager settled" where
  "sendToUser uid event m =
     (case map_of (clientIdsByUser m) uid of
        None \<Rightarrow> (None, m)
      | Some ids \<Rightarrow>
          if ids = [] then (None, m)
          else promise_all
                 (map (\<lambda>cid. case map_of (clientsById m) cid of
                                None \<Rightarrow> (\<lambda>m'. (None, m'))
                              | Some r \<Rightarrow> on_client r (send event)) ids) m)"

definition broadcast :: "server_event \<Rightarrow> sse_manager \<Rightarrow> sse_manager settled" where
  "broadcast event m =
     promise_all (map (\<lambda>r. on_client r (send event)) (map snd (clientsById m))) m"

definition clientsCount :: "sse_manager \<Rightarrow> nat" where
  "clientsCount m = length (clientsById m)"

definition usersCount :: "sse_manager \<Rightarrow> nat" where
  "usersCount m = length (clientIdsByUser m)"

datatype client_call =
    CClose | CSend server_event | CStartHeartbeat nat | CStopHeartbeat | CTick nat | CPeerGone

fun client_step :: "client_call \<Rightarrow> sse_client \<Rightarrow> sse_client settled" where
  "client_step CClose c = close c"
| "client_step (CSend e) c = send e c"
| "client_step (CStartHeartbeat ms) c = (None, startHeartbeat ms c)"
| "client_step CStopHeartbeat c = (None, stopHeartbeat c)"
| "client_step (CTick now) c = heartbeat_tick now c"
| "client_step CPeerGone c = (None, if writer c = Writable then c\<lparr>writer := Errored\<rparr> else c)"

datatype call =
    AddClient nat
  | RemoveClient string
  | SendToClient string server_event
  | SendToUser string server_event
  | Broadcast server_event
  | OnClient nat client_call

fun call_step :: "call \<Rightarrow> sse_manager \<Rightarrow> sse_manager settled" where
  "call_step (AddClient r) m = (None, addClient r m)"
| "call_step (RemoveClient k) m = removeClient k m"
| "call_step (SendToClient k e) m = sendToClient k e m"
| "call_step (SendToUser u e) m = sendToUser u e m"
| "call_step (Broadcast e) m = broadcast e m"
| "call_step (OnClient r cc) m = on_client r (client_step cc) m"

fun run_calls :: "call list \<Rightarrow> sse_manager \<Rightarrow> sse_manager" where
  "run_calls [] m = m"
| "run_calls (c # cs) m = run_calls cs (snd (call_step c m))"

subsection \<open>Facts about the registry operations\<close>

lemma send_effect:
  "snd (send evt c) =
     (if closed c then c
      else if writer c = Writable then c\<lparr>written := written c @ [formatMessage evt]\<rparr>
      else c\<lparr>closed := True, heartbeat := None\<rparr>)"
  by (simp add: send_def writeRaw_def writer_write_def close_def Let_def writer_close_def
      stopHeartbeat_def)

lemma client_step_id: "id_c (snd (client_step cc c)) = id_c c"
  by (cases cc) (simp_all add: send_effect close_def Let_def writer_close_def stopHeartbeat_def
      startHeartbeat_def heartbeat_tick_def ping_def writeRaw_def writer_write_def)

lemma client_step_userId: "userId (snd (client_step cc c)) = userId c"
  by (cases cc) (simp_all add: send_effect close_def Let_def writer_close_def stopHeartbeat_def
      startHeartbeat_def heartbeat_tick_def ping_def writeRaw_def writer_write_def)

lemma on_client_fields:
  "clientsById (snd (on_client r f m)) = clientsById m"
  "clientIdsByUser (snd (on_client r f m)) = clientIdsByUser m"
  "objs (snd (on_client r f m)) = (objs m)(r := snd (f (objs m r)))"
  "fst (on_client r f m) = fst (f (objs m r))"
  by (simp_all add: on_client_def split: prod.splits)

lemma promise_all_on_clients:
  "distinct rs \<Longrightarrow>
   clientsById (snd (promise_all (map (\<lambda>r. on_client r f) rs) m)) = clientsById m
   \<and> clientIdsByUser (snd (promise_all (map (\<lambda>r. on_client r f) rs) m)) = clientIdsByUser m
   \<and> objs (snd (promise_all (map (\<lambda>r. on_client r f) rs) m)) =
       (\<lambda>r. if r \<in> set rs then snd (f (objs m r)) else objs m r)"
proof (induction rs arbitrary: m)
  case Nil
  then show ?case by simp
next
  case (Cons r rs)
  let ?m1 = "snd (on_client r f m)"
  have d: "distinct rs" and nin: "r \<notin> set rs" using Cons.prems by simp_all
  note ih = Cons.IH [OF d, of ?m1]
  have step: "snd (promise_all (map (\<lambda>r. on_client r f) (r # rs)) m)
              = snd (promise_all (map (\<lambda>r. on_client r f) rs) ?m1)"
    by (simp split: prod.splits)
  show ?case
    unfolding step using ih nin by (auto simp: on_client_fields fun_eq_iff)
qed

lemma promise_all_resolves:
  "(\<And>p s. p \<in> set ps \<Longrightarrow> fst (p s) = None) \<Longrightarrow> fst (promise_all ps s) = None"
proof (induction ps arbitrary: s)
  case Nil
  then show ?case by simp
next
  case (Cons p ps)
  have a: "fst (p s) = None" using Cons.prems by simp
  have b: "fst (promise_all ps (snd (p s))) = None" using Cons by simp
  show ?case using a b by (cases "p s"; cases "promise_all ps (snd (p s))") simp
qed

definition same_registry :: "sse_manager \<Rightarrow> sse_manager \<Rightarrow> bool" where
  "same_registry m m' \<longleftrightarrow>
     clientsById m' = clientsById m \<and> clientIdsByUser m' = clientIdsByUser m
     \<and> (\<forall>r. id_c (objs m' r) = id_c (objs m r) \<and> userId (objs m' r) = userId (objs m r))"

lemma same_registry_refl: "same_registry m m"
  by (simp add: same_registry_def)

lemma same_registry_trans:
  "same_registry m m1 \<Longrightarrow> same_registry m1 m2 \<Longrightarrow> same_registry m m2"
  by (simp add: same_registry_def)

lemma on_client_same_registry:
  "same_registry m (snd (on_client r (client_step cc) m))"
  by (simp add: same_registry_def on_client_fields client_step_id client_step_userId)

lemma promise_all_same_registry:
  "(\<And>p s. p \<in> set ps \<Longrightarrow> same_registry s (snd (p s))) \<Longrightarrow>
   same_registry m (snd (promise_all ps m))"
proof (induction ps arbitrary: m)
  case Nil
  then show ?case by (simp add: same_registry_refl)
next
  case (Cons p ps)
  have a: "same_registry m (snd (p m))" using Cons.prems by simp
  have b: "same_registry (snd (p m)) (snd (promise_all ps (snd (p m))))"
    using Cons by simp
  have "snd (promise_all (p # ps) m) = snd (promise_all ps (snd (p m)))"
    by (cases "p m"; cases "promise_all ps (snd (p m))") simp
  then show ?case using same_registry_trans [OF a b] by simp
qed

lemma send_as_step: "send e = client_step (CSend e)" "close = client_step CClose"
  by (simp_all add: fun_eq_iff)

lemma broadcast_same_registry: "same_registry m (snd (broadcast e m))"
  unfolding broadcast_def send_as_step
  by (rule promise_all_same_registry) (auto simp: on_client_same_registry)

lemma sendToClient_same_registry: "same_registry m (snd (sendToClient k e m))"
  unfolding sendToClient_def send_as_step
  by (simp add: same_registry_refl on_client_same_registry split: option.splits)

lemma sendToUser_same_registry: "same_registry m (snd (sendToUser u e m))"
  unfolding sendToUser_def send_as_step
  apply (simp add: same_registry_refl split: option.splits)
  apply (intro allI impI promise_all_same_registry)
  apply (auto simp: on_client_same_registry same_registry_refl split: option.splits)
  done

definition registry_ok :: "(nat \<Rightarrow> sse_client) \<Rightarrow> sse_manager \<Rightarrow> bool" where
  "registry_ok h m \<longleftrightarrow>
     (\<forall>r. id_c (objs m r) = id_c (h r) \<and> userId (objs m r) = userId (h r))
     \<and> distinct (map fst (clientsById m))
     \<and> (\<forall>k r. map_of (clientsById m) k = Some r \<longrightarrow> k = id_c (h r))"

lemma registry_ok_new: "registry_ok h (new_manager h)"
  by (simp add: registry_ok_def new_manager_def)

lemma registry_ok_same:
  "registry_ok h m \<Longrightarrow> same_registry m m' \<Longrightarrow> registry_ok h m'"
  by (simp add: registry_ok_def same_registry_def)

lemma addClient_fields:
  "objs (addClient r m) = objs m"
  "clientsById (addClient r m) = AList.update (id_c (objs m r)) r (clientsById m)"
  by (simp_all add: addClient_def Let_def split: option.splits)

lemma registry_ok_add: "registry_ok h m \<Longrightarrow> registry_ok h (addClient r m)"
  by (simp add: registry_ok_def addClient_fields distinct_update update_conv')

lemma removeClient_fields:
  "clientsById (snd (removeClient k m)) = AList.delete k (clientsById m)"
  "objs (snd (removeClient k m)) =
     (case map_of (clientsById m) k of None \<Rightarrow> objs m
      | Some r \<Rightarrow> (objs m)(r := snd (close (objs m r))))"
proof -
  show "clientsById (snd (removeClient k m)) = AList.delete k (clientsById m)"
  proof (cases "map_of (clientsById m) k")
    case None
    then have "k \<notin> fst ` set (clientsById m)" by (simp add: map_of_eq_None_iff)
    then show ?thesis using None by (simp add: removeClient_def)
  next
    case (Some r)
    then show ?thesis
      by (simp add: removeClient_def Let_def on_client_fields split: option.splits)
  qed
  show "objs (snd (removeClient k m)) =
     (case map_of (clientsById m) k of None \<Rightarrow> objs m
      | Some r \<Rightarrow> (objs m)(r := snd (close (objs m r))))"
    by (cases "map_of (clientsById m) k")
      (simp_all add: removeClient_def Let_def on_client_fields split: option.splits)
qed

lemma registry_ok_remove: "registry_ok h m \<Longrightarrow> registry_ok h (snd (removeClient k m))"
  using client_step_id [of CClose] client_step_userId [of CClose]
  by (auto simp: registry_ok_def removeClient_fields distinct_delete delete_conv'
      split: option.splits)

lemma registry_ok_step: "registry_ok h m \<Longrightarrow> registry_ok h (snd (call_step c m))"
proof (cases c)
  case (AddClient r)
  assume "registry_ok h m"
  then show ?thesis using AddClient by (simp add: registry_ok_add)
next
  case (RemoveClient k)
  assume "registry_ok h m"
  then show ?thesis using RemoveClient by (simp add: registry_ok_remove)
next
  case (SendToClient k e)
  assume "registry_ok h m"
  then show ?thesis using SendToClient registry_ok_same sendToClient_same_registry by simp
next
  case (SendToUser u e)
  assume "registry_ok h m"
  then show ?thesis using SendToUser registry_ok_same sendToUser_same_registry by simp
next
  case (Broadcast e)
  assume "registry_ok h m"
  then show ?thesis using Broadcast registry_ok_same broadcast_same_registry by simp
next
  case (OnClient r cc)
  assume "registry_ok h m"
  then show ?thesis using OnClient registry_ok_same on_client_same_registry by simp
qed

lemma registry_ok_run: "registry_ok h m \<Longrightarrow> registry_ok h (run_calls cs m)"
  by (induction cs arbitrary: m) (simp_all add: registry_ok_step)

lemma registry_ok_distinct_refs:
  assumes "registry_ok h m"
  shows "distinct (map snd (clientsById m))"
proof -
  have d: "distinct (map fst (clientsById m))" using assms by (simp add: registry_ok_def)
  have "\<forall>(k, r) \<in> set (clientsById m). k = id_c (h r)"
    using assms d by (auto simp: registry_ok_def)
  then have "map fst (clientsById m) = map (\<lambda>r. id_c (h r)) (map snd (clientsById m))"
    by (induction "clientsById m") auto
  then show ?thesis using d by (metis distinct_map)
qed

text \<open>
  C5. In every registry state reached by calls of the public surface, \<open>broadcast\<close>
  resolves (no failure reaches the caller) and leaves both indices alone; every registered
  connection gets exactly one \<open>send\<close>, independently of the others: an open connection
  with a writable pipe has the frame appended, a connection whose write fails is closed (its
  pipe is not written again, the write is not retried), a closed one is untouched. So with
  \<open>N\<close> registered connections of which one fails, the other \<open>N - 1\<close> still
  receive the record.
\<close>

theorem broadcast_isolates_failures:
  assumes "m = run_calls cs (new_manager h)"
  shows "fst (broadcast ev m) = None
       \<and> clientsById (snd (broadcast ev m)) = clientsById m
       \<and> clientIdsByUser (snd (broadcast ev m)) = clientIdsByUser m
       \<and> (\<forall>(k, r) \<in> set (clientsById m).
             objs (snd (broadcast ev m)) r =
               (if closed (objs m r) then objs m r
                else if writer (objs m r) = Writable
                  then (objs m r)\<lparr>written := written (objs m r) @ [formatMessage ev]\<rparr>
                  else (objs m r)\<lparr>closed := True, heartbeat := None\<rparr>))
       \<and> (\<forall>r. r \<notin> snd ` set (clientsById m) \<longrightarrow> objs (snd (broadcast ev m)) r = objs m r)"
proof -
  have ok: "registry_ok h m"
    using assms registry_ok_run [OF registry_ok_new] by simp
  have d: "distinct (map snd (clientsById m))"
    by (rule registry_ok_distinct_refs [OF ok])
  have res: "fst (broadcast ev m) = None"
    unfolding broadcast_def
    by (rule promise_all_resolves) (auto simp: on_client_fields send_resolves)
  note eff = promise_all_on_clients [OF d, of "send ev" m, folded broadcast_def]
  have in_refs: "\<And>k r. (k, r) \<in> set (clientsById m) \<Longrightarrow> r \<in> snd ` set (clientsById m)"
    by force
  show ?thesis using res eff by (auto simp: send_effect in_refs)
qed

definition ids_of_user :: "sse_manager \<Rightarrow> string \<Rightarrow> string list" where
  "ids_of_user m u = map fst (filter (\<lambda>(k, r). userId (objs m r) = Some u) (clientsById m))"

fun added :: "call list \<Rightarrow> nat list" where
  "added [] = []"
| "added (AddClient r # cs) = r # added cs"
| "added (c # cs) = added cs"

definition user_index_ok :: "nat set \<Rightarrow> sse_manager \<Rightarrow> bool" where
  "user_index_ok R m \<longleftrightarrow>
     distinct (map fst (clientIdsByUser m))
     \<and> (\<forall>k r. map_of (clientsById m) k = Some r \<longrightarrow> r \<in> R)
     \<and> (\<forall>u s. map_of (clientIdsByUser m) u = Some s \<longrightarrow>
              u \<noteq> [] \<and> s \<noteq> [] \<and> set s = set (ids_of_user m u))
     \<and> (\<forall>u. map_of (clientIdsByUser m) u = None \<longrightarrow> u = [] \<or> set (ids_of_user m u) = {})"

lemma set_ids_of_user:
  "distinct (map fst (clientsById m)) \<Longrightarrow>
   set (ids_of_user m u) = {k. \<exists>r. map_of (clientsById m) k = Some r \<and> userId (objs m r) = Some u}"
  by (auto simp: ids_of_user_def image_iff)

lemma ids_of_user_same:
  "same_registry m m' \<Longrightarrow> ids_of_user m' u = ids_of_user m u"
  by (simp add: ids_of_user_def same_registry_def)

lemma user_index_ok_same:
  "user_index_ok R m \<Longrightarrow> same_registry m m' \<Longrightarrow> user_index_ok R m'"
proof -
  assume ok: "user_index_ok R m" and sr: "same_registry m m'"
  have a: "clientsById m' = clientsById m" "clientIdsByUser m' = clientIdsByUser m"
    using sr by (simp_all add: same_registry_def)
  have b: "\<And>u. ids_of_user m' u = ids_of_user m u"
    using sr by (rule ids_of_user_same)
  show ?thesis using ok by (simp add: user_index_ok_def a b)
qed

lemma user_index_ok_new: "user_index_ok R (new_manager h)"
  by (simp add: user_index_ok_def new_manager_def ids_of_user_def)

lemma update_fresh: "k \<notin> fst ` set al \<Longrightarrow> AList.update k v al = al @ [(k, v)]"
  by (induction al) auto

lemma user_index_ok_add:
  assumes ok: "registry_ok h m" and ui: "user_index_ok R m"
    and inj: "inj_on (\<lambda>r. id_c (h r)) R" and rR: "r \<in> R"
  shows "user_index_ok R (addClient r m)"
proof -
  let ?k = "id_c (objs m r)"
  let ?m' = "addClient r m"
  have kid: "?k = id_c (h r)"
    using ok by (simp_all add: registry_ok_def)
  have du: "distinct (map fst (clientIdsByUser m))" using ui by (simp add: user_index_ok_def)
  have inR: "\<And>k r'. map_of (clientsById m) k = Some r' \<Longrightarrow> r' \<in> R"
    using ui by (simp add: user_index_ok_def)
  have idxS: "\<And>u s. map_of (clientIdsByUser m) u = Some s \<Longrightarrow>
                 u \<noteq> [] \<and> s \<noteq> [] \<and> set s = set (ids_of_user m u)"
    using ui by (simp add: user_index_ok_def)
  have idxN: "\<And>u. map_of (clientIdsByUser m) u = None \<Longrightarrow> u = [] \<or> set (ids_of_user m u) = {}"
    using ui by (simp add: user_index_ok_def)
  have same_ref: "\<And>r'. map_of (clientsById m) ?k = Some r' \<Longrightarrow> r' = r"
  proof -
    fix r' assume a: "map_of (clientsById m) ?k = Some r'"
    then have "?k = id_c (h r')" using ok by (simp add: registry_ok_def)
    moreover have "r' \<in> R" using a inR by simp
    ultimately show "r' = r" using inj rR kid by (auto dest: inj_onD)
  qed
  let ?al = "AList.update ?k r (clientsById m)"
  have cb: "clientsById ?m' = ?al" and ob: "objs ?m' = objs m"
    by (simp_all add: addClient_fields)
  have ids: "\<And>u. set (ids_of_user ?m' u)
               = set (ids_of_user m u) \<union> (if userId (objs m r) = Some u then {?k} else {})"
  proof -
    fix u
    show "set (ids_of_user ?m' u)
               = set (ids_of_user m u) \<union> (if userId (objs m r) = Some u then {?k} else {})"
    proof (cases "map_of (clientsById m) ?k")
      case None
      then have "?k \<notin> fst ` set (clientsById m)" by (simp add: map_of_eq_None_iff)
      then show ?thesis by (simp add: update_fresh ids_of_user_def cb ob)
    next
      case (Some r')
      then have m: "map_of (clientsById m) ?k = Some r" using same_ref by simp
      then have "?al = clientsById m" by (rule update_triv)
      moreover have "(?k, r) \<in> set (clientsById m)" using m by (rule map_of_SomeD)
      ultimately show ?thesis by (force simp: ids_of_user_def cb ob)
    qed
  qed
  have inR': "\<And>k r'. map_of (clientsById ?m') k = Some r' \<Longrightarrow> r' \<in> R"
    using inR rR by (auto simp: cb update_conv' split: if_splits)
  let ?s0 = "\<lambda>u. case map_of (clientIdsByUser m) u of None \<Rightarrow> [] | Some s \<Rightarrow> s"
  have ub: "clientIdsByUser ?m' =
      (case userId (objs m r) of None \<Rightarrow> clientIdsByUser m
       | Some u \<Rightarrow> if u = [] then clientIdsByUser m
                   else AList.update u (set_add ?k (?s0 u)) (clientIdsByUser m))"
    by (simp add: addClient_def Let_def split: option.splits)
  have du': "distinct (map fst (clientIdsByUser ?m'))"
    using du by (simp add: ub distinct_update split: option.splits)
  have mp: "\<And>u. map_of (clientIdsByUser ?m') u =
      (if userId (objs m r) = Some u \<and> u \<noteq> [] then Some (set_add ?k (?s0 u))
       else map_of (clientIdsByUser m) u)"
    by (auto simp: ub update_conv' split: option.splits)
  have s0: "\<And>u. u \<noteq> [] \<Longrightarrow> set (?s0 u) = set (ids_of_user m u)"
  proof -
    fix u :: string assume ne: "u \<noteq> []"
    show "set (?s0 u) = set (ids_of_user m u)"
    proof (cases "map_of (clientIdsByUser m) u")
      case None
      then show ?thesis using idxN [of u] ne by simp
    next
      case (Some s)
      then show ?thesis using idxS [of u s] by simp
    qed
  qed
  have sa: "\<And>x xs. set (set_add x xs) = insert x (set xs)" "\<And>x xs. set_add x xs \<noteq> []"
    by (auto simp: set_add_def)
  have S: "\<And>u s. map_of (clientIdsByUser ?m') u = Some s \<Longrightarrow>
              u \<noteq> [] \<and> s \<noteq> [] \<and> set s = set (ids_of_user ?m' u)"
    using idxS s0 by (auto simp: mp ids sa split: if_splits)
  have N: "\<And>u. map_of (clientIdsByUser ?m') u = None \<Longrightarrow> u = [] \<or> set (ids_of_user ?m' u) = {}"
    using idxN by (auto simp: mp ids split: if_splits)
  show ?thesis
    unfolding user_index_ok_def using du' inR' S N by blast
qed

lemma user_index_ok_remove:
  assumes ok: "registry_ok h m" and ui: "user_index_ok R m"
  shows "user_index_ok R (snd (removeClient k m))"
proof (cases "map_of (clientsById m) k")
  case None
  then show ?thesis using ui by (simp add: removeClient_def)
next
  case (Some r)
  let ?m' = "snd (removeClient k m)"
  have dk: "distinct (map fst (clientsById m))" using ok by (simp add: registry_ok_def)
  have du: "distinct (map fst (clientIdsByUser m))" using ui by (simp add: user_index_ok_def)
  have inR: "\<And>k r'. map_of (clientsById m) k = Some r' \<Longrightarrow> r' \<in> R"
    using ui by (simp add: user_index_ok_def)
  have idxS: "\<And>u s. map_of (clientIdsByUser m) u = Some s \<Longrightarrow>
                 u \<noteq> [] \<and> s \<noteq> [] \<and> set s = set (ids_of_user m u)"
    using ui by (simp add: user_index_ok_def)
  have idxN: "\<And>u. map_of (clientIdsByUser m) u = None \<Longrightarrow> u = [] \<or> set (ids_of_user m u) = {}"
    using ui by (simp add: user_index_ok_def)
  have cb: "clientsById ?m' = AList.delete k (clientsById m)"
    by (simp add: removeClient_fields)
  have dk': "distinct (map fst (clientsById ?m'))"
    using dk by (simp add: cb distinct_delete)
  have uid: "\<And>r'. userId (objs ?m' r') = userId (objs m r')"
    using client_step_userId [of CClose]
    by (simp add: removeClient_fields Some)
  have ids: "\<And>u. set (ids_of_user ?m' u) = set (ids_of_user m u) - {k}"
    unfolding set_ids_of_user [OF dk'] set_ids_of_user [OF dk]
    by (auto simp: cb uid delete_conv')
  have kin: "\<And>u. (k \<in> set (ids_of_user m u)) = (userId (objs m r) = Some u)"
    unfolding set_ids_of_user [OF dk] using Some by auto
  let ?u = "userId (objs m r)"
  have ub: "clientIdsByUser ?m' =
      (case ?u of None \<Rightarrow> clientIdsByUser m
       | Some u \<Rightarrow> if u = [] then clientIdsByUser m
                   else (case map_of (clientIdsByUser m) u of
                           None \<Rightarrow> clientIdsByUser m
                         | Some s \<Rightarrow> if removeAll k s = [] then AList.delete u (clientIdsByUser m)
                                     else AList.update u (removeAll k s) (clientIdsByUser m)))"
    by (simp add: removeClient_def Some Let_def on_client_fields AList.delete_eq
        split: option.splits)
  have du': "distinct (map fst (clientIdsByUser ?m'))"
    using du by (simp add: ub distinct_update distinct_delete split: option.splits)
  have inR': "\<And>k' r'. map_of (clientsById ?m') k' = Some r' \<Longrightarrow> r' \<in> R"
    using inR by (auto simp: cb delete_conv' split: if_splits)
  have mp: "\<And>u. map_of (clientIdsByUser ?m') u =
      (if ?u = Some u \<and> u \<noteq> [] then
         (case map_of (clientIdsByUser m) u of None \<Rightarrow> None
          | Some s \<Rightarrow> if removeAll k s = [] then None else Some (removeAll k s))
       else map_of (clientIdsByUser m) u)"
    by (auto simp: ub update_conv' delete_conv' split: option.splits)
  have S: "\<And>u s. map_of (clientIdsByUser ?m') u = Some s \<Longrightarrow>
              u \<noteq> [] \<and> s \<noteq> [] \<and> set s = set (ids_of_user ?m' u)"
  proof -
    fix u s assume a: "map_of (clientIdsByUser ?m') u = Some s"
    show "u \<noteq> [] \<and> s \<noteq> [] \<and> set s = set (ids_of_user ?m' u)"
    proof (cases "?u = Some u \<and> u \<noteq> []")
      case True
      then obtain s0 where s0: "map_of (clientIdsByUser m) u = Some s0"
        and s: "s = removeAll k s0" "removeAll k s0 \<noteq> []"
        using a by (auto simp: mp split: option.splits if_splits)
      show ?thesis using idxS [OF s0] s by (simp add: ids)
    next
      case False
      then have b: "map_of (clientIdsByUser m) u = Some s" using a by (auto simp: mp)
      have "k \<notin> set (ids_of_user m u)" using False idxS [OF b] by (auto simp: kin)
      then show ?thesis using idxS [OF b] by (simp add: ids)
    qed
  qed
  have N: "\<And>u. map_of (clientIdsByUser ?m') u = None \<Longrightarrow> u = [] \<or> set (ids_of_user ?m' u) = {}"
  proof -
    fix u assume a: "map_of (clientIdsByUser ?m') u = None"
    show "u = [] \<or> set (ids_of_user ?m' u) = {}"
    proof (cases "?u = Some u \<and> u \<noteq> []")
      case True
      show ?thesis
      proof (cases "map_of (clientIdsByUser m) u")
        case None
        then show ?thesis using idxN [OF None] by (auto simp: ids)
      next
        case (Some s0)
        then have "removeAll k s0 = []" using a True by (auto simp: mp split: if_splits)
        then have "set s0 \<subseteq> {k}" by (metis removeAll_id list.distinct(1) set_removeAll
              Diff_eq_empty_iff set_empty)
        then show ?thesis using idxS [OF Some] by (auto simp: ids)
      qed
    next
      case False
      then have b: "map_of (clientIdsByUser m) u = None" using a by (auto simp: mp)
      then show ?thesis using idxN [OF b] by (auto simp: ids)
    qed
  qed
  show ?thesis
    unfolding user_index_ok_def using du' inR' S N by blast
qed

lemma user_index_ok_step:
  assumes "registry_ok h m" "user_index_ok R m" "inj_on (\<lambda>r. id_c (h r)) R"
    and "set (added [c]) \<subseteq> R"
  shows "user_index_ok R (snd (call_step c m))"
proof (cases c)
  case (AddClient r)
  then show ?thesis using assms by (simp add: user_index_ok_add)
next
  case (RemoveClient k)
  then show ?thesis using assms by (simp add: user_index_ok_remove)
next
  case (SendToClient k e)
  then show ?thesis using assms(2) user_index_ok_same sendToClient_same_registry by simp
next
  case (SendToUser u e)
  then show ?thesis using assms(2) user_index_ok_same sendToUser_same_registry by simp
next
  case (Broadcast e)
  then show ?thesis using assms(2) user_index_ok_same broadcast_same_registry by simp
next
  case (OnClient r cc)
  then show ?thesis using assms(2) user_index_ok_same on_client_same_registry by simp
qed

lemma added_Cons: "set (added (c # cs)) = set (added [c]) \<union> set (added cs)"
  by (cases c) simp_all

lemma user_index_ok_run:
  "registry_ok h m \<Longrightarrow> user_index_ok R m \<Longrightarrow> inj_on (\<lambda>r. id_c (h r)) R \<Longrightarrow>
   set (added cs) \<subseteq> R \<Longrightarrow> user_index_ok R (run_calls cs m)"
proof (induction cs arbitrary: m)
  case Nil
  then show ?case by simp
next
  case (Cons c cs)
  have sub: "set (added [c]) \<subseteq> R" "set (added cs) \<subseteq> R"
    using Cons.prems(4) added_Cons [of c cs] by auto
  have a: "registry_ok h (snd (call_step c m))"
    using Cons.prems(1) by (rule registry_ok_step)
  have b: "user_index_ok R (snd (call_step c m))"
    using Cons.prems(1,2,3) sub(1) by (rule user_index_ok_step)
  show ?case using Cons.IH [OF a b Cons.prems(3) sub(2)] by simp
qed

lemma ids_of_user_remove:
  assumes ok: "registry_ok h m"
  shows "set (ids_of_user (snd (removeClient k m)) u) = set (ids_of_user m u) - {k}"
proof -
  let ?m' = "snd (removeClient k m)"
  have dk: "distinct (map fst (clientsById m))" using ok by (simp add: registry_ok_def)
  have ok': "registry_ok h ?m'" using ok by (rule registry_ok_remove)
  have dk': "distinct (map fst (clientsById ?m'))" using ok' by (simp add: registry_ok_def)
  have uid: "\<And>r'. userId (objs ?m' r') = userId (objs m r')"
    using ok ok' by (simp add: registry_ok_def)
  show ?thesis
    unfolding set_ids_of_user [OF dk'] set_ids_of_user [OF dk]
    by (auto simp: removeClient_fields(1) uid delete_conv')
qed

lemma ids_of_user_distinct:
  "distinct (map fst (clientsById m)) \<Longrightarrow> distinct (ids_of_user m u)"
  by (simp add: ids_of_user_def distinct_map_filter)

lemma singleton_list:
  assumes "distinct xs"
  shows "(set xs = {k}) = (xs = [k])"
proof
  assume s: "set xs = {k}"
  have "length xs = 1" using distinct_card [OF assms] s by simp
  then obtain x where "xs = [x]" by (cases xs) auto
  then show "xs = [k]" using s by simp
next
  assume "xs = [k]"
  then show "set xs = {k}" by simp
qed

lemma sendToClient_after_remove:
  "sendToClient k ev (snd (removeClient k m)) = (None, snd (removeClient k m))"
  by (simp add: sendToClient_def removeClient_fields delete_conv')

lemma removeClient_resolves: "fst (removeClient k m) = None"
  by (simp add: removeClient_def Let_def on_client_fields close_resolves split: option.splits)

text \<open>
  C7. In every registry state reached by calls of the public surface on connections whose
  ids are pairwise different, \<open>removeClient k\<close> resolves and a following
  \<open>sendToClient k\<close> resolves and changes nothing at all. The user index holds exactly
  the non-empty user ids that have a registered connection, so \<open>usersCount\<close> counts
  those; and a user id leaves the index by \<open>removeClient k\<close> exactly when \<open>k\<close>
  was the only connection registered for it.
\<close>

theorem remove_then_send_and_user_index:
  assumes "inj_on (\<lambda>r. id_c (h r)) (set (added cs))" and "m = run_calls cs (new_manager h)"
  shows "fst (removeClient k m) = None
       \<and> sendToClient k ev (snd (removeClient k m)) = (None, snd (removeClient k m))
       \<and> (\<forall>u. (u \<in> fst ` set (clientIdsByUser m)) = (u \<noteq> [] \<and> ids_of_user m u \<noteq> []))
       \<and> (\<forall>u. (u \<in> fst ` set (clientIdsByUser m)
                \<and> u \<notin> fst ` set (clientIdsByUser (snd (removeClient k m))))
              = (u \<noteq> [] \<and> ids_of_user m u = [k]))
       \<and> usersCount m = card {u. u \<noteq> [] \<and> ids_of_user m u \<noteq> []}"
proof -
  let ?R = "set (added cs)"
  let ?m' = "snd (removeClient k m)"
  have ok: "registry_ok h m"
    using assms(2) registry_ok_run [OF registry_ok_new] by simp
  have ui: "user_index_ok ?R m"
    unfolding assms(2)
    by (rule user_index_ok_run [OF registry_ok_new user_index_ok_new assms(1)]) simp
  have ok': "registry_ok h ?m'" using ok by (rule registry_ok_remove)
  have ui': "user_index_ok ?R ?m'" using ok ui by (rule user_index_ok_remove)
  have dom: "\<And>m u. user_index_ok ?R m \<Longrightarrow>
               (u \<in> fst ` set (clientIdsByUser m)) = (u \<noteq> [] \<and> ids_of_user m u \<noteq> [])"
  proof -
    fix m :: sse_manager and u
    assume a: "user_index_ok ?R m"
    show "(u \<in> fst ` set (clientIdsByUser m)) = (u \<noteq> [] \<and> ids_of_user m u \<noteq> [])"
    proof (cases "map_of (clientIdsByUser m) u")
      case None
      then have "u \<notin> fst ` set (clientIdsByUser m)" by (simp add: map_of_eq_None_iff)
      moreover have "u = [] \<or> ids_of_user m u = []"
        using a None by (simp add: user_index_ok_def)
      ultimately show ?thesis by auto
    next
      case (Some s)
      then have "u \<in> fst ` set (clientIdsByUser m)"
        by (metis map_of_eq_None_iff option.distinct(1))
      moreover have "u \<noteq> [] \<and> s \<noteq> [] \<and> set s = set (ids_of_user m u)"
        using a Some by (simp add: user_index_ok_def)
      ultimately show ?thesis by auto
    qed
  qed
  have dk: "distinct (map fst (clientsById m))" using ok by (simp add: registry_ok_def)
  have p3: "\<forall>u. (u \<in> fst ` set (clientIdsByUser m)) = (u \<noteq> [] \<and> ids_of_user m u \<noteq> [])"
    using dom [OF ui] by simp
  have p4: "\<forall>u. (u \<in> fst ` set (clientIdsByUser m)
                \<and> u \<notin> fst ` set (clientIdsByUser ?m'))
              = (u \<noteq> [] \<and> ids_of_user m u = [k])"
  proof
    fix u
    have e: "(ids_of_user ?m' u = []) = (set (ids_of_user m u) - {k} = {})"
      using ids_of_user_remove [OF ok, of k u] by (metis set_empty)
    have s: "(set (ids_of_user m u) = {k}) = (ids_of_user m u = [k])"
      by (rule singleton_list [OF ids_of_user_distinct [OF dk]])
    show "(u \<in> fst ` set (clientIdsByUser m) \<and> u \<notin> fst ` set (clientIdsByUser ?m'))
              = (u \<noteq> [] \<and> ids_of_user m u = [k])"
      unfolding dom [OF ui] dom [OF ui'] e s [symmetric]
      by (cases "ids_of_user m u") auto
  qed
  have "fst ` set (clientIdsByUser m) = {u. u \<noteq> [] \<and> ids_of_user m u \<noteq> []}"
    using p3 by auto
  moreover have "distinct (map fst (clientIdsByUser m))"
    using ui by (simp add: user_index_ok_def)
  ultimately have p5: "usersCount m = card {u. u \<noteq> [] \<and> ids_of_user m u \<noteq> []}"
    by (metis usersCount_def distinct_card length_map set_map)
  show ?thesis
    using removeClient_resolves sendToClient_after_remove p3 p4 p5 by blast
qed

definition demo_clients :: "nat \<Rightarrow> sse_client" where
  "demo_clients r =
     \<lparr>id_c = (if r = 0 then ''a'' else if r = 1 then ''b'' else ''c''),
      userId = (if r < 2 then Some ''u1'' else None),
      closed = False, heartbeat = None, writer = Writable, written = []\<rparr>"

definition demo_event :: server_event where
  "demo_event = \<lparr>ev_event = Some ''x'', ev_data = Some (JNum 1), ev_id = None, ev_retry = None\<rparr>"

lemma on_client_alt:
  "on_client r f m = (fst (f (objs m r)), m\<lparr>objs := (objs m)(r := snd (f (objs m r)))\<rparr>)"
  by (simp add: on_client_def split: prod.splits)

lemma promise_all_alt:
  "promise_all (p # ps) s =
     ((case fst (p s) of None \<Rightarrow> fst (promise_all ps (snd (p s))) | Some x \<Rightarrow> Some x),
      snd (promise_all ps (snd (p s))))"
  by (cases "p s"; cases "promise_all ps (snd (p s))") (simp split: option.splits)

lemma send_full:
  "send evt c =
     (None, if closed c then c
            else if writer c = Writable then c\<lparr>written := written c @ [formatMessage evt]\<rparr>
            else c\<lparr>closed := True, heartbeat := None\<rparr>)"
  by (simp add: send_def writeRaw_def writer_write_def close_def Let_def writer_close_def
      stopHeartbeat_def)

lemma close_full:
  "close c =
     (None, if closed c then c
            else c\<lparr>closed := True, heartbeat := None,
                   writer := (if writer c = Writable then WClosed else writer c)\<rparr>)"
  by (simp add: close_def Let_def writer_close_def stopHeartbeat_def)

lemmas server_eval =
  Let_def new_manager_def addClient_def removeClient_def sendToClient_def broadcast_def
  on_client_alt promise_all_alt send_full close_full demo_clients_def set_add_def
  usersCount_def clientsCount_def ids_of_user_def AList.delete_eq

theorem broadcast_isolates_failures_witness:
  "(let m = run_calls [AddClient 0, AddClient 1, AddClient 2, OnClient 1 CPeerGone]
              (new_manager demo_clients);
        m' = snd (broadcast demo_event m)
    in fst (broadcast demo_event m) = None
       \<and> clientsById m' = clientsById m
       \<and> map fst (clientsById m) = [''a'', ''b'', ''c'']
       \<and> written (objs m' 0) = [formatMessage demo_event]
       \<and> written (objs m' 1) = [] \<and> closed (objs m' 1)
       \<and> written (objs m' 2) = [formatMessage demo_event] \<and> closed (objs m' 2) = False
       \<and> clientsCount m' = 3)"
proof -
  let ?cs = "[AddClient 0, AddClient 1, AddClient 2, OnClient 1 CPeerGone]"
  let ?m = "run_calls ?cs (new_manager demo_clients)"
  let ?m' = "snd (broadcast demo_event ?m)"
  note t = broadcast_isolates_failures [OF refl, of demo_event ?cs demo_clients]
  have a: "fst (broadcast demo_event ?m) = None" "clientsById ?m' = clientsById ?m"
    using t by blast+
  have m: "?m = \<lparr>objs = demo_clients(1 := (demo_clients 1)\<lparr>writer := Errored\<rparr>),
                 clientsById = [(''a'', 0), (''b'', 1), (''c'', 2)],
                 clientIdsByUser = [(''u1'', [''a'', ''b''])]\<rparr>"
    by (simp add: server_eval)
  have b: "map fst (clientsById ?m) = [''a'', ''b'', ''c'']"
    unfolding m by simp
  have c: "written (objs ?m' 0) = [formatMessage demo_event]"
      "written (objs ?m' 1) = []" "closed (objs ?m' 1)"
      "written (objs ?m' 2) = [formatMessage demo_event]" "closed (objs ?m' 2) = False"
      "clientsCount ?m' = 3"
    unfolding m
    by (simp_all add: server_eval del: promise_all.simps(2))
  show ?thesis
    unfolding Let_def using a b c by blast
qed

theorem remove_then_send_and_user_index_witness:
  "(let m = run_calls [AddClient 0, AddClient 1, AddClient 2, RemoveClient ''a'']
              (new_manager demo_clients);
        m' = snd (removeClient ''b'' m)
    in inj_on (\<lambda>r. id_c (demo_clients r)) {0, 1, 2}
       \<and> usersCount m = 1 \<and> ids_of_user m ''u1'' = [''b'']
       \<and> (''u1'' \<in> fst ` set (clientIdsByUser m) \<and> ''u1'' \<notin> fst ` set (clientIdsByUser m'))
       \<and> usersCount m' = 0 \<and> clientsCount m' = 1
       \<and> sendToClient ''b'' demo_event m' = (None, m')
       \<and> closed (objs m' 1) \<and> written (objs m' 1) = [])"
proof -
  let ?cs = "[AddClient 0, AddClient 1, AddClient 2, RemoveClient ''a'']"
  let ?m = "run_calls ?cs (new_manager demo_clients)"
  let ?m' = "snd (removeClient ''b'' ?m)"
  have inj: "inj_on (\<lambda>r. id_c (demo_clients r)) {0, 1, 2}"
    by (simp add: demo_clients_def)
  have inj': "inj_on (\<lambda>r. id_c (demo_clients r)) (set (added ?cs))"
    using inj by simp
  note t = remove_then_send_and_user_index [OF inj' refl, of "''b''" demo_event]
  have m: "?m = \<lparr>objs = demo_clients(0 := (demo_clients 0)\<lparr>closed := True, writer := WClosed\<rparr>),
                 clientsById = [(''b'', 1), (''c'', 2)],
                 clientIdsByUser = [(''u1'', [''b''])]\<rparr>"
    by (simp add: server_eval)
  have b: "usersCount ?m = 1" "ids_of_user ?m ''u1'' = [''b'']"
    unfolding m by (simp_all add: usersCount_def ids_of_user_def demo_clients_def)
  have a: "sendToClient ''b'' demo_event ?m' = (None, ?m')"
     "''u1'' \<in> fst ` set (clientIdsByUser ?m) \<and> ''u1'' \<notin> fst ` set (clientIdsByUser ?m')"
  proof -
    show "sendToClient ''b'' demo_event ?m' = (None, ?m')" using t by blast
    have ne: "''u1'' \<noteq> []" by simp
    from t have "(''u1'' \<in> fst ` set (clientIdsByUser ?m)
                  \<and> ''u1'' \<notin> fst ` set (clientIdsByUser ?m'))
                 = (''u1'' \<noteq> [] \<and> ids_of_user ?m ''u1'' = [''b''])"
      by blast
    then show "''u1'' \<in> fst ` set (clientIdsByUser ?m) \<and> ''u1'' \<notin> fst ` set (clientIdsByUser ?m')"
      using ne b(2) by blast
  qed
  have c: "usersCount ?m' = 0" "clientsCount ?m' = 1" "closed (objs ?m' 1)"
     "written (objs ?m' 1) = []"
    unfolding m by (simp_all add: server_eval)
  show ?thesis
    unfolding Let_def using inj a b c by blast
qed

section \<open>The registry embedded in client.ts\<close>

text \<open>
  client.ts carries a second \<open>SSEManager\<close> with a primary index only. It registers a
  connection under \<open>client.sessionId\<close>; the property read is the parameter
  \<open>sessionId\<close> of the operations below (\<open>None\<close> is \<open>undefined\<close>, a legal
  \<open>Map\<close> key).
\<close>

record sse_manager_e =
  objs_e :: "nat \<Rightarrow> sse_client"
  clientsById_e :: "(string option \<times> nat) list"

definition new_manager_e :: "(nat \<Rightarrow> sse_client) \<Rightarrow> sse_manager_e" where
  "new_manager_e h = \<lparr>objs_e = h, clientsById_e = []\<rparr>"

definition on_client_e ::
  "nat \<Rightarrow> (sse_client \<Rightarrow> sse_client settled) \<Rightarrow> sse_manager_e \<Rightarrow> sse_manager_e settled" where
  "on_client_e r f m = (case f (objs_e m r) of (e, c) \<Rightarrow> (e, m\<lparr>objs_e := (objs_e m)(r := c)\<rparr>))"

definition addClient_e :: "(sse_client \<Rightarrow> string option) \<Rightarrow> nat \<Rightarrow> sse_manager_e \<Rightarrow> sse_manager_e" where
  "addClient_e sessionId r m =
     m\<lparr>clientsById_e := AList.update (sessionId (objs_e m r)) r (clientsById_e m)\<rparr>"

definition removeClient_e :: "string \<Rightarrow> sse_manager_e \<Rightarrow> sse_manager_e settled" where
  "removeClient_e clientId m =
     (case map_of (clientsById_e m) (Some clientId) of
        None \<Rightarrow> (None, m)
      | Some r \<Rightarrow>
          (let m1 = m\<lparr>clientsById_e := AList.delete (Some clientId) (clientsById_e m)\<rparr>
           in on_client_e r close m1))"

definition sendToClient_e :: "string \<Rightarrow> server_event \<Rightarrow> sse_manager_e \<Rightarrow> sse_manager_e settled" where
  "sendToClient_e clientId event m =
     (case map_of (clientsById_e m) (Some clientId) of
        None \<Rightarrow> (None, m)
      | Some r \<Rightarrow> on_client_e r (send event) m)"

definition broadcast_e :: "server_event \<Rightarrow> sse_manager_e \<Rightarrow> sse_manager_e settled" where
  "broadcast_e event m =
     promise_all (map (\<lambda>r. on_client_e r (send event)) (map snd (clientsById_e m))) m"

definition clientsCount_e :: "sse_manager_e \<Rightarrow> nat" where
  "clientsCount_e m = length (clientsById_e m)"

text \<open>The calls the two registries share, run on each of them.\<close>

datatype shared_call =
    SAdd nat
  | SRemove string
  | SSendToClient string server_event
  | SBroadcast server_event

fun shared_step :: "shared_call \<Rightarrow> sse_manager \<Rightarrow> sse_manager" where
  "shared_step (SAdd r) m = addClient r m"
| "shared_step (SRemove k) m = snd (removeClient k m)"
| "shared_step (SSendToClient k e) m = snd (sendToClient k e m)"
| "shared_step (SBroadcast e) m = snd (broadcast e m)"

fun shared_step_e ::
  "(sse_client \<Rightarrow> string option) \<Rightarrow> shared_call \<Rightarrow> sse_manager_e \<Rightarrow> sse_manager_e" where
  "shared_step_e sid (SAdd r) m = addClient_e sid r m"
| "shared_step_e sid (SRemove k) m = snd (removeClient_e k m)"
| "shared_step_e sid (SSendToClient k e) m = snd (sendToClient_e k e m)"
| "shared_step_e sid (SBroadcast e) m = snd (broadcast_e e m)"

fun run_shared :: "shared_call list \<Rightarrow> sse_manager \<Rightarrow> sse_manager" where
  "run_shared [] m = m"
| "run_shared (c # cs) m = run_shared cs (shared_step c m)"

fun run_shared_e ::
  "(sse_client \<Rightarrow> string option) \<Rightarrow> shared_call list \<Rightarrow> sse_manager_e \<Rightarrow> sse_manager_e" where
  "run_shared_e sid [] m = m"
| "run_shared_e sid (c # cs) m = run_shared_e sid cs (shared_step_e sid c m)"

lemma on_client_e_alt:
  "on_client_e r f m = (fst (f (objs_e m r)), m\<lparr>objs_e := (objs_e m)(r := snd (f (objs_e m r)))\<rparr>)"
  by (simp add: on_client_e_def split: prod.splits)

text \<open>
  C10. The two registries are not equivalent, by a slip in the embedded one. Its index is
  meant to be keyed by the connection's id, as the one of manager.ts is: the field's comment
  is \<open>clientId -> client\<close> and \<open>removeClient\<close> and \<open>sendToClient\<close> look a
  connection up by \<open>the ID of the client\<close>. But \<open>addClient\<close> files the connection
  under \<open>client.sessionId\<close>, and the \<open>SSEClient\<close> class of client.ts declares
  \<open>id\<close> and no property \<open>sessionId\<close>: for its objects the property read is
  \<open>undefined\<close>, and every connection goes under that one key. After \<open>addClient\<close> of
  the connection with id \<open>a\<close>, \<open>sendToClient\<close> with \<open>a\<close> writes the frame in the
  registry of manager.ts and nothing in the embedded one, and after a second
  \<open>addClient\<close> the counts are 2 and 1.
\<close>

theorem embedded_registry_misses_client_id:
  "(let m1 = addClient 0 (new_manager demo_clients);
        e1 = addClient_e (\<lambda>c. None) 0 (new_manager_e demo_clients)
    in id_c (demo_clients 0) = ''a''
       \<and> written (objs (snd (sendToClient ''a'' demo_event m1)) 0) = [formatMessage demo_event]
       \<and> written (objs_e (snd (sendToClient_e ''a'' demo_event e1)) 0) = []
       \<and> clientsCount (addClient 1 m1) = 2
       \<and> clientsCount_e (addClient_e (\<lambda>c. None) 1 e1) = 1)"
  by (simp add: server_eval new_manager_e_def addClient_e_def sendToClient_e_def
      clientsCount_e_def on_client_e_alt)

text \<open>
  The key is all that differs. Were the property read the connection's id, the embedded
  registry and the one of manager.ts would stay in step on every sequence of shared calls:
  same connections in the same order, same state of every connection, same count.
\<close>

definition in_step :: "sse_manager \<Rightarrow> sse_manager_e \<Rightarrow> bool" where
  "in_step m e \<longleftrightarrow>
     objs_e e = objs m \<and> clientsById_e e = map (\<lambda>(k, r). (Some k, r)) (clientsById m)"

lemma update_map_Some:
  "AList.update (Some k) r (map (\<lambda>(k, r). (Some k, r)) al)
   = map (\<lambda>(k, r). (Some k, r)) (AList.update k r al)"
  by (induction al) auto

lemma delete_map_Some:
  "AList.delete (Some k) (map (\<lambda>(k, r). (Some k, r)) al)
   = map (\<lambda>(k, r). (Some k, r)) (AList.delete k al)"
  by (induction al) auto

lemma map_of_map_Some:
  "map_of (map (\<lambda>(k, r). (Some k, r)) al) (Some k) = map_of al k"
  by (induction al) auto

lemma promise_all_in_step:
  "in_step m e \<Longrightarrow>
   in_step (snd (promise_all (map (\<lambda>r. on_client r f) rs) m))
           (snd (promise_all (map (\<lambda>r. on_client_e r f) rs) e))"
proof (induction rs arbitrary: m e)
  case Nil
  then show ?case by simp
next
  case (Cons r rs)
  have "in_step (snd (on_client r f m)) (snd (on_client_e r f e))"
    using Cons.prems by (simp add: in_step_def on_client_alt on_client_e_alt)
  from Cons.IH [OF this] show ?case by (simp add: promise_all_alt del: promise_all.simps)
qed

lemma in_step_step:
  assumes "\<And>c. sid c = Some (id_c c)" and "in_step m e"
  shows "in_step (shared_step c m) (shared_step_e sid c e)"
proof (cases c)
  case (SAdd r)
  then show ?thesis using assms
    by (simp add: in_step_def addClient_fields addClient_e_def update_map_Some)
next
  case (SRemove k)
  show ?thesis
  proof (cases "map_of (clientsById m) k")
    case None
    then have "k \<notin> fst ` set (clientsById m)" by (simp add: map_of_eq_None_iff)
    then have "AList.delete k (clientsById m) = clientsById m" by simp
    then show ?thesis using SRemove None assms(2)
      by (simp add: in_step_def removeClient_fields removeClient_e_def map_of_map_Some)
  next
    case (Some r)
    then show ?thesis using SRemove assms(2)
      by (simp add: in_step_def removeClient_fields removeClient_e_def map_of_map_Some
          on_client_e_alt delete_map_Some Let_def)
  qed
next
  case (SSendToClient k ev)
  then show ?thesis using assms(2)
    by (cases "map_of (clientsById m) k")
      (simp_all add: in_step_def sendToClient_def sendToClient_e_def map_of_map_Some
        on_client_e_alt on_client_alt)
next
  case (SBroadcast ev)
  have eq: "map snd (clientsById_e e) = map snd (clientsById m)"
    using assms(2) by (simp add: in_step_def comp_def case_prod_unfold)
  show ?thesis
    unfolding SBroadcast shared_step.simps shared_step_e.simps broadcast_def broadcast_e_def eq
    by (rule promise_all_in_step [OF assms(2)])
qed

lemma registries_in_step_when_keys_agree:
  assumes "\<And>c. sid c = Some (id_c c)"
  shows "in_step (run_shared cs (new_manager h)) (run_shared_e sid cs (new_manager_e h))"
proof -
  have "\<And>m e. in_step m e \<Longrightarrow> in_step (run_shared cs m) (run_shared_e sid cs e)"
  proof (induction cs)
    case Nil
    then show ?case by simp
  next
    case (Cons c cs)
    show ?case using Cons.IH [OF in_step_step [OF assms Cons.prems]] by simp
  qed
  moreover have "in_step (new_manager h) (new_manager_e h)"
    by (simp add: in_step_def new_manager_def new_manager_e_def)
  ultimately show ?thesis by blast
qed

section \<open>URL construction (\<open>buildUrl\<close>, packages/react/src/utils.ts)\<close>

text \<open>
  A query value is a string, \<open>null\<close> or \<open>undefined\<close>. The query object is the list of
  its entries in the order \<open>Object.entries\<close> yields them; \<open>None\<close> is an absent
  \<open>query\<close>.
\<close>

datatype qvalue = QString string | QNull | QUndefined

record url_options =
  uo_url :: string
  uo_query :: "(string \<times> qvalue) list option"

datatype url_input = UrlString string | UrlObject url_options

text \<open>
  \<open>encodeURIComponent\<close> on a UTF-8 string: the unreserved characters stay, every other
  byte becomes \<open>%XX\<close> in upper-case hexadecimal.
\<close>

definition unreserved :: "char \<Rightarrow> bool" where
  "unreserved c \<longleftrightarrow>
     c \<in> set ''ABCDEFGHIJKLMNOPQRSTUVWXYZabcdefghijklmnopqrstuvwxyz0123456789-_.!~*()''
     \<or> c = CHR 0x27"

definition encode_byte :: "char \<Rightarrow> string" where
  "encode_byte c =
     (if unreserved c then [c]
      else [CHR ''%'', hex_upper (of_char c div 16), hex_upper (of_char c)])"

definition encodeURIComponent :: "string \<Rightarrow> string" where
  "encodeURIComponent s = concat (map encode_byte s)"

fun String_of :: "qvalue \<Rightarrow> string" where
  "String_of (QString s) = s"
| "String_of QNull = ''null''"
| "String_of QUndefined = ''undefined''"

definition buildUrl :: "url_input \<Rightarrow> string" where
  "buildUrl urlInput =
     (case urlInput of
        UrlString s \<Rightarrow> s
      | UrlObject opts \<Rightarrow>
          (let query =
                 join ''&''
                   (map (\<lambda>(k, v). encodeURIComponent k @ ''='' @ encodeURIComponent (String_of v))
                      (filter (\<lambda>(k, v). v \<noteq> QNull \<and> v \<noteq> QUndefined)
                         (case uo_query opts of None \<Rightarrow> [] | Some q \<Rightarrow> q)))
           in uo_url opts @ (if query \<noteq> [] then ''?'' @ query else [])))"

text \<open>The claim's wording: the entries that are kept, and what is appended.\<close>

fun kept_entries :: "(string \<times> qvalue) list \<Rightarrow> (string \<times> string) list" where
  "kept_entries [] = []"
| "kept_entries ((k, QString s) # q) = (k, s) # kept_entries q"
| "kept_entries ((k, QNull) # q) = kept_entries q"
| "kept_entries ((k, QUndefined) # q) = kept_entries q"

definition buildUrl_spec :: "string \<Rightarrow> (string \<times> qvalue) list \<Rightarrow> string" where
  "buildUrl_spec u q =
     (if kept_entries q = [] then u
      else u @ ''?'' @ join ''&''
             (map (\<lambda>(k, s). encodeURIComponent k @ ''='' @ encodeURIComponent s) (kept_entries q)))"

lemma kept_entries_filter:
  "map (\<lambda>(k, v). encodeURIComponent k @ ''='' @ encodeURIComponent (String_of v))
     (filter (\<lambda>(k, v). v \<noteq> QNull \<and> v \<noteq> QUndefined) q)
   = map (\<lambda>(k, s). encodeURIComponent k @ ''='' @ encodeURIComponent s) (kept_entries q)"
  by (induction q rule: kept_entries.induct) simp_all

lemma join_nonempty: "x \<noteq> [] \<Longrightarrow> join sep (x # xs) \<noteq> []"
  by (cases xs) simp_all

lemma join_entries_empty:
  "(join ''&'' (map (\<lambda>(k, s). encodeURIComponent k @ ''='' @ encodeURIComponent s) es) = [])
   = (es = [])"
proof (cases es)
  case Nil
  then show ?thesis by simp
next
  case (Cons e es')
  obtain k s where e: "e = (k, s)" by (cases e)
  have "encodeURIComponent k @ ''='' @ encodeURIComponent s \<noteq> []" by simp
  then show ?thesis using Cons e join_nonempty by simp
qed

text \<open>
  C9. \<open>buildUrl\<close> returns a string input unchanged. For \<open>{url, query}\<close> it keeps exactly
  the entries whose value is neither \<open>null\<close> nor \<open>undefined\<close>, percent-encodes each kept
  key and value, joins them with \<open>&\<close> and appends them to \<open>url\<close> after \<open>?\<close>; when no
  entry is kept (or \<open>query\<close> is absent) nothing is appended. In particular
  \<open>buildUrl({url: "/api/sse", query: {user_id: "u1", channel: null}})\<close> is
  \<open>/api/sse?user_id=u1\<close>.
\<close>

theorem buildUrl_meets_spec:
  "buildUrl (UrlString s) = s
   \<and> buildUrl (UrlObject \<lparr>uo_url = u, uo_query = Some q\<rparr>) = buildUrl_spec u q
   \<and> buildUrl (UrlObject \<lparr>uo_url = u, uo_query = None\<rparr>) = u
   \<and> buildUrl (UrlObject \<lparr>uo_url = ''/api/sse'',
                            uo_query = Some [(''user_id'', QString ''u1''), (''channel'', QNull)]\<rparr>)
       = ''/api/sse?user_id=u1''"
proof -
  have a: "buildUrl (UrlString s) = s" by (simp add: buildUrl_def)
  have b: "buildUrl (UrlObject \<lparr>uo_url = u, uo_query = Some q\<rparr>) = buildUrl_spec u q"
    unfolding buildUrl_def buildUrl_spec_def Let_def url_input.case url_options.select_convs
      option.case kept_entries_filter join_entries_empty
    by simp
  have c: "buildUrl (UrlObject \<lparr>uo_url = u, uo_query = None\<rparr>) = u"
    by (simp add: buildUrl_def)
  have d: "buildUrl (UrlObject \<lparr>uo_url = ''/api/sse'',
                            uo_query = Some [(''user_id'', QString ''u1''), (''channel'', QNull)]\<rparr>)
       = ''/api/sse?user_id=u1''"
    by (simp add: buildUrl_def Let_def encodeURIComponent_def encode_byte_def unreserved_def)
  show ?thesis using a b c d by blast
qed

theorem buildUrl_meets_spec_witness:
  "buildUrl (UrlObject \<lparr>uo_url = ''/s'',
                         uo_query = Some [(''a b'', QUndefined), (''q&'', QString ''x=1'')]\<rparr>)
     = ''/s?q%26=x%3D1''
   \<and> buildUrl (UrlObject \<lparr>uo_url = ''/s'', uo_query = Some [(''a'', QNull)]\<rparr>) = ''/s''"
  using buildUrl_meets_spec [of "''/s''" "''/s''" "[(''a b'', QUndefined), (''q&'', QString ''x=1'')]"]
    buildUrl_meets_spec [of "''/s''" "''/s''" "[(''a'', QNull)]"]
  by (simp add: buildUrl_spec_def encodeURIComponent_def encode_byte_def unreserved_def
      hex_upper_def)

section \<open>Receiver (\<open>useEventSource\<close>, hooks/useEventSource.tsx)\<close>

text \<open>
  The hook keeps its mutable cells (\<open>eventSourceRef\<close>, \<open>retryRef\<close>, \<open>timerRef\<close>,
  \<open>destroyedRef\<close>, \<open>listenersRef\<close>, \<open>dispatchersRef\<close>) and the published snapshot
  \<open>state\<close>. The model adds what the platform holds: the \<open>EventSource\<close> objects created
  so far (a reference is an index into \<open>sources\<close>), the pending timeouts, and a trace of
  the handler invocations and of the failures reported on the console.

  Handlers are opaque function values, named by numbers; \<open>throws\<close> says whether a call
  of a handler on given arguments raises. In the functions of this section a handler does
  not call back into the hook while it runs: \<open>invoke\<close> records the call and what it
  throws. The section on handlers that call back gives \<open>invoke_re\<close>, \<open>emit_re\<close> and
  the callbacks for handlers that do; they agree with the ones here when no handler makes
  a call (\<open>run_re_no_calls\<close>).
\<close>

record msg_event =
  me_data :: string
  me_lastEventId :: string

datatype arg = AData json | AMessageEvent msg_event | AErrorEvent nat

datatype obs =
    Called nat "arg list"
  | Reported string nat
  | Reconnecting int

record event_source =
  es_readyState :: nat
  es_listeners :: "string list"

record snapshot =
  url :: string
  connected :: bool
  readyState :: nat
  lastEventId :: "string option"
  lastEventName :: "string option"
  lastData :: json
  error :: "nat option"

record config =
  urlString :: string
  parse :: "string \<Rightarrow> json"
  reconnectEnabled :: bool
  initialDelayMs :: int
  maxDelayMs :: int
  maxRetries :: int
  throws :: "nat \<Rightarrow> arg list \<Rightarrow> bool"

record hook =
  eventSourceRef :: "nat option"
  sources :: "event_source list"
  retryRef :: nat
  timerRef :: "nat option"
  timers :: "(nat \<times> int) list"
  next_timer :: nat
  destroyedRef :: bool
  listenersRef :: "(string \<times> nat list) list"
  dispatchersRef :: "string list"
  state :: snapshot
  trace :: "obs list"

definition isReservedEvent :: "string \<Rightarrow> bool" where
  "isReservedEvent eventName \<longleftrightarrow>
     eventName = ''open'' \<or> eventName = ''error'' \<or> eventName = ''message''"

definition initial :: "config \<Rightarrow> string option \<Rightarrow> hook" where
  "initial cfg lastId =
     \<lparr>eventSourceRef = None, sources = [], retryRef = 0, timerRef = None, timers = [],
      next_timer = 1, destroyedRef = False, listenersRef = [], dispatchersRef = [],
      state = \<lparr>url = urlString cfg, connected = False, readyState = 0, lastEventId = lastId,
               lastEventName = None, lastData = JNull, error = None\<rparr>,
      trace = []\<rparr>"

subsection \<open>Platform objects\<close>

definition on_source :: "nat \<Rightarrow> (event_source \<Rightarrow> event_source) \<Rightarrow> hook \<Rightarrow> hook" where
  "on_source h f s =
     (if h < length (sources s) then s\<lparr>sources := (sources s)[h := f (sources s ! h)]\<rparr> else s)"

definition source_state :: "hook \<Rightarrow> nat \<Rightarrow> nat" where
  "source_state s h = (if h < length (sources s) then es_readyState (sources s ! h) else 2)"

definition addEventListener :: "string \<Rightarrow> event_source \<Rightarrow> event_source" where
  "addEventListener name e = e\<lparr>es_listeners := es_listeners e @ [name]\<rparr>"

definition removeEventListener :: "string \<Rightarrow> event_source \<Rightarrow> event_source" where
  "removeEventListener name e = e\<lparr>es_listeners := remove1 name (es_listeners e)\<rparr>"

definition es_close :: "event_source \<Rightarrow> event_source" where
  "es_close e = e\<lparr>es_readyState := 2\<rparr>"

definition clearTimeout :: "nat \<Rightarrow> hook \<Rightarrow> hook" where
  "clearTimeout t s = s\<lparr>timers := filter (\<lambda>(i, d). i \<noteq> t) (timers s)\<rparr>"

subsection \<open>The hook's functions\<close>

definition invoke :: "config \<Rightarrow> string \<Rightarrow> arg list \<Rightarrow> nat \<Rightarrow> hook \<Rightarrow> hook" where
  "invoke cfg name args fn s =
     (let s1 = s\<lparr>trace := trace s @ [Called fn args]\<rparr>
      in if throws cfg fn args then s1\<lparr>trace := trace s1 @ [Reported name fn]\<rparr> else s1)"

definition emit :: "config \<Rightarrow> string \<Rightarrow> arg list \<Rightarrow> hook \<Rightarrow> hook" where
  "emit cfg name args s =
     (case map_of (listenersRef s) name of
        None \<Rightarrow> s
      | Some set0 \<Rightarrow> fold (invoke cfg name args) set0 s)"

definition attachNamedIfNeeded :: "string \<Rightarrow> hook \<Rightarrow> hook" where
  "attachNamedIfNeeded name s =
     (if isReservedEvent name then s
      else case eventSourceRef s of
             None \<Rightarrow> s
           | Some h \<Rightarrow>
               if name \<in> set (dispatchersRef s) then s
               else (on_source h (addEventListener name) s)
                      \<lparr>dispatchersRef := dispatchersRef s @ [name]\<rparr>)"

definition attachAllNamed :: "hook \<Rightarrow> hook" where
  "attachAllNamed s =
     fold (\<lambda>name s'. if isReservedEvent name then s' else attachNamedIfNeeded name s')
       (map fst (listenersRef s)) s"

definition addListener :: "string \<Rightarrow> nat \<Rightarrow> hook \<Rightarrow> hook" where
  "addListener name handler s =
     (let set0 = (case map_of (listenersRef s) name of None \<Rightarrow> [] | Some x \<Rightarrow> x);
          s1 = s\<lparr>listenersRef := AList.update name (set_add handler set0) (listenersRef s)\<rparr>
      in attachNamedIfNeeded name s1)"

text \<open>The closure \<open>addListener name handler\<close> returns.\<close>

definition unsubscribe :: "string \<Rightarrow> nat \<Rightarrow> hook \<Rightarrow> hook" where
  "unsubscribe name handler s =
     (case map_of (listenersRef s) name of
        None \<Rightarrow> s
      | Some current \<Rightarrow>
          (let current1 = removeAll handler current
           in if current1 \<noteq> []
              then s\<lparr>listenersRef := AList.update name current1 (listenersRef s)\<rparr>
              else (let s1 = s\<lparr>listenersRef := AList.delete name (listenersRef s)\<rparr>;
                        s2 = (case eventSourceRef s1 of
                                None \<Rightarrow> s1
                              | Some h \<Rightarrow>
                                  if name \<in> set (dispatchersRef s1) \<and> \<not> isReservedEvent name
                                  then on_source h (removeEventListener name) s1
                                  else s1)
                    in s2\<lparr>dispatchersRef := removeAll name (dispatchersRef s2)\<rparr>)))"

definition cleanup :: "hook \<Rightarrow> hook" where
  "cleanup s =
     (let s1 = (case timerRef s of
                  None \<Rightarrow> s
                | Some t \<Rightarrow> (clearTimeout t s)\<lparr>timerRef := None\<rparr>);
          s2 = (case eventSourceRef s1 of
                  None \<Rightarrow> s1
                | Some h \<Rightarrow> fold (\<lambda>name. on_source h (removeEventListener name))
                              (dispatchersRef s1) s1);
          s3 = s2\<lparr>dispatchersRef := []\<rparr>;
          s4 = (case eventSourceRef s3 of
                  None \<Rightarrow> s3
                | Some h \<Rightarrow> on_source h es_close s3)
      in s4\<lparr>eventSourceRef := None\<rparr>)"

definition connect :: "hook \<Rightarrow> hook" where
  "connect s =
     (if (case eventSourceRef s of None \<Rightarrow> False | Some h \<Rightarrow> source_state s h = 1) then s
      else (let s1 = s\<lparr>destroyedRef := False\<rparr>;
                s2 = cleanup s1
            in s2\<lparr>sources := sources s2 @ [\<lparr>es_readyState = 0, es_listeners = []\<rparr>],
                  eventSourceRef := Some (length (sources s2))\<rparr>))"

definition backoff_delay :: "config \<Rightarrow> nat \<Rightarrow> int" where
  "backoff_delay cfg attempt = min (initialDelayMs cfg * 2 ^ attempt) (maxDelayMs cfg)"

definition scheduleReconnect :: "config \<Rightarrow> hook \<Rightarrow> hook" where
  "scheduleReconnect cfg s =
     (if \<not> reconnectEnabled cfg \<or> destroyedRef s then s
      else if int (retryRef s) \<ge> maxRetries cfg then s
      else (let delay = backoff_delay cfg (retryRef s);
                s1 = s\<lparr>retryRef := retryRef s + 1\<rparr>;
                t = next_timer s1;
                s2 = s1\<lparr>timerRef := Some t, timers := timers s1 @ [(t, delay)],
                        next_timer := t + 1\<rparr>
            in s2\<lparr>trace := trace s2 @ [Reconnecting delay]\<rparr>))"

definition onopen :: "config \<Rightarrow> hook \<Rightarrow> hook" where
  "onopen cfg s =
     (let s1 = s\<lparr>retryRef := 0\<rparr>;
          s2 = s1\<lparr>state := (state s1)\<lparr>connected := True, readyState := 1, error := None\<rparr>\<rparr>;
          s3 = emit cfg ''open'' [] s2
      in attachAllNamed s3)"

definition onerror :: "config \<Rightarrow> nat \<Rightarrow> nat \<Rightarrow> hook \<Rightarrow> hook" where
  "onerror cfg h e s =
     (let s1 = s\<lparr>state := (state s)\<lparr>connected := False, readyState := source_state s h,
                                   error := Some e\<rparr>\<rparr>;
          s2 = emit cfg ''error'' [AErrorEvent e] s1
      in if source_state s2 h = 2 then scheduleReconnect cfg s2 else s2)"

definition onmessage :: "config \<Rightarrow> msg_event \<Rightarrow> hook \<Rightarrow> hook" where
  "onmessage cfg ev s =
     (let data = parse cfg (me_data ev);
          s1 = s\<lparr>state := (state s)
                  \<lparr>lastEventId := (if me_lastEventId ev \<noteq> [] then Some (me_lastEventId ev)
                                    else lastEventId (state s)),
                   lastEventName := Some ''message'',
                   lastData := data\<rparr>\<rparr>
      in emit cfg ''message'' [AData data, AMessageEvent ev] s1)"

definition dispatch :: "config \<Rightarrow> string \<Rightarrow> msg_event \<Rightarrow> hook \<Rightarrow> hook" where
  "dispatch cfg name ev s =
     (case map_of (listenersRef s) name of
        None \<Rightarrow> s
      | Some set0 \<Rightarrow>
          if set0 = [] then s
          else (let data = parse cfg (me_data ev);
                    s1 = s\<lparr>state := (state s)
                            \<lparr>lastEventId := (if me_lastEventId ev \<noteq> [] then Some (me_lastEventId ev)
                                              else lastEventId (state s)),
                             lastEventName := Some name,
                             lastData := data\<rparr>\<rparr>
                in emit cfg name [AData data, AMessageEvent ev] s1))"

definition disconnect :: "hook \<Rightarrow> hook" where
  "disconnect s =
     (let s1 = s\<lparr>destroyedRef := True\<rparr>;
          s2 = cleanup s1
      in s2\<lparr>state := (state s2)\<lparr>connected := False, readyState := 2\<rparr>\<rparr>)"

subsection \<open>What can happen to a hook\<close>

text \<open>
  The calls of the public surface, and what the platform does: a pending timeout fires; an
  \<open>EventSource\<close> that is not closed opens, fails (fatally, or to retry by itself),
  delivers an unnamed message or a named event for which it has a listener. A step that the
  platform cannot take is \<open>None\<close>.
\<close>

datatype event =
    Connect
  | Disconnect
  | Subscribe string nat
  | Unsubscribe string nat
  | TimerFire nat
  | EsOpen nat
  | EsError nat nat bool
  | EsMessage nat msg_event
  | EsNamed nat string msg_event

fun step :: "config \<Rightarrow> event \<Rightarrow> hook \<Rightarrow> hook option" where
  "step cfg Connect s = Some (connect s)"
| "step cfg Disconnect s = Some (disconnect s)"
| "step cfg (Subscribe name handler) s = Some (addListener name handler s)"
| "step cfg (Unsubscribe name handler) s = Some (unsubscribe name handler s)"
| "step cfg (TimerFire t) s =
     (if t \<in> fst ` set (timers s) then Some (connect (clearTimeout t s)) else None)"
| "step cfg (EsOpen h) s =
     (if source_state s h = 0
      then Some (onopen cfg (on_source h (\<lambda>e. e\<lparr>es_readyState := 1\<rparr>) s))
      else None)"
| "step cfg (EsError h e fatal) s =
     (if source_state s h \<noteq> 2
      then Some (onerror cfg h e
                  (on_source h (\<lambda>e. e\<lparr>es_readyState := (if fatal then 2 else 0)\<rparr>) s))
      else None)"
| "step cfg (EsMessage h ev) s =
     (if source_state s h = 1 then Some (onmessage cfg ev s) else None)"
| "step cfg (EsNamed h name ev) s =
     (if source_state s h = 1 \<and> name \<in> set (es_listeners (sources s ! h))
      then Some (fold (\<lambda>l s'. if l = name then dispatch cfg name ev s' else s')
                   (es_listeners (sources s ! h)) s)
      else None)"

fun run :: "config \<Rightarrow> event list \<Rightarrow> hook \<Rightarrow> hook option" where
  "run cfg [] s = Some s"
| "run cfg (e # es) s = (case step cfg e s of None \<Rightarrow> None | Some s1 \<Rightarrow> run cfg es s1)"

subsection \<open>Observations\<close>

definition handlers_of :: "hook \<Rightarrow> string \<Rightarrow> nat list" where
  "handlers_of s name = (case map_of (listenersRef s) name of None \<Rightarrow> [] | Some set0 \<Rightarrow> set0)"

fun calls_in :: "obs list \<Rightarrow> (nat \<times> arg list) list" where
  "calls_in [] = []"
| "calls_in (Called fn args # os) = (fn, args) # calls_in os"
| "calls_in (other # os) = calls_in os"

fun reports_in :: "obs list \<Rightarrow> (string \<times> nat) list" where
  "reports_in [] = []"
| "reports_in (Reported name fn # os) = (name, fn) # reports_in os"
| "reports_in (other # os) = reports_in os"

fun delays_in :: "obs list \<Rightarrow> int list" where
  "delays_in [] = []"
| "delays_in (Reconnecting d # os) = d # delays_in os"
| "delays_in (other # os) = delays_in os"

lemma calls_in_append: "calls_in (xs @ ys) = calls_in xs @ calls_in ys"
  by (induction xs rule: calls_in.induct) simp_all

lemma reports_in_append: "reports_in (xs @ ys) = reports_in xs @ reports_in ys"
  by (induction xs rule: reports_in.induct) simp_all

lemma delays_in_append: "delays_in (xs @ ys) = delays_in xs @ delays_in ys"
  by (induction xs rule: delays_in.induct) simp_all

subsection \<open>Emission\<close>

lemma fold_invoke:
  "fold (invoke cfg name args) fns s =
     s\<lparr>trace := trace s @ concat (map (\<lambda>fn. Called fn args #
                    (if throws cfg fn args then [Reported name fn] else [])) fns)\<rparr>"
  by (induction fns arbitrary: s) (simp_all add: invoke_def Let_def)

lemma emit_eq:
  "emit cfg name args s =
     s\<lparr>trace := trace s @ concat (map (\<lambda>fn. Called fn args #
                    (if throws cfg fn args then [Reported name fn] else []))
                  (handlers_of s name))\<rparr>"
  by (simp add: emit_def handlers_of_def fold_invoke split: option.splits)

lemma calls_in_emitted:
  "calls_in (concat (map (\<lambda>fn. Called fn args #
       (if throws cfg fn args then [Reported name fn] else [])) fns))
   = map (\<lambda>fn. (fn, args)) fns"
  by (induction fns) simp_all

lemma reports_in_emitted:
  "reports_in (concat (map (\<lambda>fn. Called fn args #
       (if throws cfg fn args then [Reported name fn] else [])) fns))
   = map (\<lambda>fn. (name, fn)) (filter (\<lambda>fn. throws cfg fn args) fns)"
  by (induction fns) simp_all

lemma attachNamedIfNeeded_keeps:
  "listenersRef (attachNamedIfNeeded name s) = listenersRef s"
  "trace (attachNamedIfNeeded name s) = trace s"
  "state (attachNamedIfNeeded name s) = state s"
  by (simp_all add: attachNamedIfNeeded_def on_source_def split: option.splits)

lemma attachAllNamed_keeps_aux:
  "listenersRef (fold (\<lambda>name s'. if isReservedEvent name then s' else attachNamedIfNeeded name s') ns s)
     = listenersRef s
   \<and> trace (fold (\<lambda>name s'. if isReservedEvent name then s' else attachNamedIfNeeded name s') ns s)
     = trace s
   \<and> state (fold (\<lambda>name s'. if isReservedEvent name then s' else attachNamedIfNeeded name s') ns s)
     = state s"
  by (induction ns arbitrary: s) (simp_all add: attachNamedIfNeeded_keeps)

lemma attachAllNamed_keeps:
  "listenersRef (attachAllNamed s) = listenersRef s"
  "trace (attachAllNamed s) = trace s"
  "state (attachAllNamed s) = state s"
  by (simp_all add: attachAllNamed_def attachAllNamed_keeps_aux)

lemma handlers_of_addListener:
  "handlers_of (addListener name h s) name = set_add h (handlers_of s name)"
  by (simp add: addListener_def Let_def handlers_of_def attachNamedIfNeeded_keeps update_conv'
      split: option.splits)

text \<open>
  C8. An emission for a name invokes the handlers registered for it, each once, in the order
  of their registration and with the same arguments, whether or not any of them throws;
  every handler that throws is reported, and nothing else of the hook changes. A new
  handler is registered behind the ones already there. The dispatchers of named events, of
  unnamed messages, of \<open>open\<close> and of \<open>error\<close> all emit this way.
\<close>

theorem emit_invokes_every_handler_in_order:
  "calls_in (trace (emit cfg name args s))
     = calls_in (trace s) @ map (\<lambda>fn. (fn, args)) (handlers_of s name)
   \<and> reports_in (trace (emit cfg name args s))
     = reports_in (trace s)
       @ map (\<lambda>fn. (name, fn)) (filter (\<lambda>fn. throws cfg fn args) (handlers_of s name))
   \<and> (emit cfg name args s)\<lparr>trace := trace s\<rparr> = s
   \<and> handlers_of (addListener name h s) name
     = (if h \<in> set (handlers_of s name) then handlers_of s name else handlers_of s name @ [h])
   \<and> calls_in (trace (dispatch cfg name ev s))
     = calls_in (trace s)
       @ map (\<lambda>fn. (fn, [AData (parse cfg (me_data ev)), AMessageEvent ev])) (handlers_of s name)
   \<and> calls_in (trace (onmessage cfg ev s))
     = calls_in (trace s)
       @ map (\<lambda>fn. (fn, [AData (parse cfg (me_data ev)), AMessageEvent ev]))
           (handlers_of s ''message'')
   \<and> calls_in (trace (onopen cfg s))
     = calls_in (trace s) @ map (\<lambda>fn. (fn, [])) (handlers_of s ''open'')
   \<and> calls_in (trace (onerror cfg src e s))
     = calls_in (trace s) @ map (\<lambda>fn. (fn, [AErrorEvent e])) (handlers_of s ''error'')"
proof -
  have a: "calls_in (trace (emit cfg name args s))
     = calls_in (trace s) @ map (\<lambda>fn. (fn, args)) (handlers_of s name)" for cfg name args s
    by (simp add: emit_eq calls_in_append calls_in_emitted)
  have b: "reports_in (trace (emit cfg name args s))
     = reports_in (trace s)
       @ map (\<lambda>fn. (name, fn)) (filter (\<lambda>fn. throws cfg fn args) (handlers_of s name))"
    by (simp add: emit_eq reports_in_append reports_in_emitted)
  have c: "(emit cfg name args s)\<lparr>trace := trace s\<rparr> = s"
    by (simp add: emit_eq)
  have d: "handlers_of (addListener name h s) name
     = (if h \<in> set (handlers_of s name) then handlers_of s name else handlers_of s name @ [h])"
    by (simp add: handlers_of_addListener set_add_def)
  have e: "calls_in (trace (dispatch cfg name ev s))
     = calls_in (trace s)
       @ map (\<lambda>fn. (fn, [AData (parse cfg (me_data ev)), AMessageEvent ev])) (handlers_of s name)"
    by (simp add: dispatch_def Let_def a handlers_of_def split: option.splits)
  have f: "calls_in (trace (onmessage cfg ev s))
     = calls_in (trace s)
       @ map (\<lambda>fn. (fn, [AData (parse cfg (me_data ev)), AMessageEvent ev]))
           (handlers_of s ''message'')"
    by (simp add: onmessage_def Let_def a handlers_of_def)
  have g: "calls_in (trace (onopen cfg s))
     = calls_in (trace s) @ map (\<lambda>fn. (fn, [])) (handlers_of s ''open'')"
    by (simp add: onopen_def Let_def attachAllNamed_keeps a handlers_of_def)
  have h: "calls_in (trace (onerror cfg src e s))
     = calls_in (trace s) @ map (\<lambda>fn. (fn, [AErrorEvent e])) (handlers_of s ''error'')"
    by (simp add: onerror_def Let_def scheduleReconnect_def a handlers_of_def calls_in_append)
  show ?thesis using a b c d e f g h by blast
qed

section \<open>\<open>JSON.parse\<close> and the default decoder\<close>

text \<open>
  A recursive-descent reader of JSON text. The fuel bounds the nesting and the number of
  members read; \<open>JSON_parse\<close> gives one more than the length of the text, and every
  recursive call reads at least one character first. \<open>None\<close> is the \<open>SyntaxError\<close>.
  Numbers are integer literals; a fraction or an exponent is outside the fragment read
  here. A \<open>\u\<close> escape becomes the UTF-8 bytes of its code unit.
\<close>

definition is_ws :: "char \<Rightarrow> bool" where
  "is_ws c \<longleftrightarrow> c = CHR '' '' \<or> c = LF \<or> c = CHR 0x0D \<or> c = CHR 0x09"

definition skip_ws :: "string \<Rightarrow> string" where
  "skip_ws s = dropWhile is_ws s"

definition is_digit :: "char \<Rightarrow> bool" where
  "is_digit c \<longleftrightarrow> c \<in> set ''0123456789''"

definition digit_val :: "char \<Rightarrow> nat" where
  "digit_val c = of_char c - 48"

definition hex_val :: "char \<Rightarrow> nat option" where
  "hex_val c =
     (if is_digit c then Some (digit_val c)
      else if c \<in> set ''abcdef'' then Some (of_char c - 87)
      else if c \<in> set ''ABCDEF'' then Some (of_char c - 55)
      else None)"

definition utf8 :: "nat \<Rightarrow> string" where
  "utf8 n =
     (if n < 128 then [char_of n]
      else if n < 2048 then [char_of (192 + n div 64), char_of (128 + n mod 64)]
      else [char_of (224 + n div 4096), char_of (128 + (n div 64) mod 64), char_of (128 + n mod 64)])"

fun parse_string :: "string \<Rightarrow> (string \<times> string) option" where
  "parse_string [] = None"
| "parse_string (c # cs) =
     (if c = DQ then Some ([], cs)
      else if c = BSL then
        (case cs of
           [] \<Rightarrow> None
         | e # r \<Rightarrow>
             if e = CHR ''u'' then
               (case r of
                  a # b # c # d # r' \<Rightarrow>
                    (case (hex_val a, hex_val b, hex_val c, hex_val d) of
                       (Some x, Some y, Some z, Some w) \<Rightarrow>
                         (case parse_string r' of
                            None \<Rightarrow> None
                          | Some (str, rest) \<Rightarrow>
                              Some (utf8 (((x * 16 + y) * 16 + z) * 16 + w) @ str, rest))
                     | _ \<Rightarrow> None)
                | _ \<Rightarrow> None)
             else
               (case (if e = DQ then Some DQ
                      else if e = BSL then Some BSL
                      else if e = CHR ''/'' then Some (CHR ''/'')
                      else if e = CHR ''b'' then Some (CHR 0x08)
                      else if e = CHR ''f'' then Some (CHR 0x0C)
                      else if e = CHR ''n'' then Some LF
                      else if e = CHR ''r'' then Some (CHR 0x0D)
                      else if e = CHR ''t'' then Some (CHR 0x09)
                      else None) of
                  None \<Rightarrow> None
                | Some x \<Rightarrow>
                    (case parse_string r of
                       None \<Rightarrow> None
                     | Some (str, rest) \<Rightarrow> Some (x # str, rest))))
      else if (of_char c :: nat) < 32 then None
      else (case parse_string cs of
              None \<Rightarrow> None
            | Some (str, rest) \<Rightarrow> Some (c # str, rest)))"

definition parse_number :: "string \<Rightarrow> (json \<times> string) option" where
  "parse_number s =
     (let neg = (s \<noteq> [] \<and> hd s = CHR ''-'');
          body = (if neg then tl s else s);
          ds = takeWhile is_digit body;
          rest = dropWhile is_digit body;
          n = foldl (\<lambda>a c. 10 * a + int (digit_val c)) 0 ds
      in if ds = [] then None
         else if hd ds = CHR ''0'' \<and> tl ds \<noteq> [] then None
         else if rest \<noteq> [] \<and> hd rest \<in> set ''.eE'' then None
         else Some (JNum (if neg then - n else n), rest))"

definition obj_of_members :: "(string \<times> json) list \<Rightarrow> json" where
  "obj_of_members ms = JObj (fold (\<lambda>(k, v). AList.update k v) ms [])"

fun parse_value :: "nat \<Rightarrow> string \<Rightarrow> (json \<times> string) option"
  and parse_elems :: "nat \<Rightarrow> string \<Rightarrow> (json list \<times> string) option"
  and parse_members :: "nat \<Rightarrow> string \<Rightarrow> ((string \<times> json) list \<times> string) option" where
  "parse_value 0 s = None"
| "parse_value (Suc n) s =
     (case skip_ws s of
        [] \<Rightarrow> None
      | c # r \<Rightarrow>
          if c = CHR ''{'' then
            (if take 1 (skip_ws r) = ''}'' then Some (JObj [], tl (skip_ws r))
             else (case parse_members n r of
                     None \<Rightarrow> None
                   | Some (ms, rest) \<Rightarrow> Some (obj_of_members ms, rest)))
          else if c = CHR ''['' then
            (if take 1 (skip_ws r) = '']'' then Some (JArr [], tl (skip_ws r))
             else (case parse_elems n r of
                     None \<Rightarrow> None
                   | Some (vs, rest) \<Rightarrow> Some (JArr vs, rest)))
          else if c = DQ then
            (case parse_string r of
               None \<Rightarrow> None
             | Some (str, rest) \<Rightarrow> Some (JStr str, rest))
          else if c = CHR ''-'' \<or> is_digit c then parse_number (c # r)
          else if take 4 (c # r) = ''true'' then Some (JBool True, drop 4 (c # r))
          else if take 5 (c # r) = ''false'' then Some (JBool False, drop 5 (c # r))
          else if take 4 (c # r) = ''null'' then Some (JNull, drop 4 (c # r))
          else None)"
| "parse_elems 0 s = None"
| "parse_elems (Suc n) s =
     (case parse_value n s of
        None \<Rightarrow> None
      | Some (v, r) \<Rightarrow>
          if take 1 (skip_ws r) = '','' then
            (case parse_elems n (tl (skip_ws r)) of
               None \<Rightarrow> None
             | Some (vs, rest) \<Rightarrow> Some (v # vs, rest))
          else if take 1 (skip_ws r) = '']'' then Some ([v], tl (skip_ws r))
          else None)"
| "parse_members 0 s = None"
| "parse_members (Suc n) s =
     (if take 1 (skip_ws s) = [DQ] then
        (case parse_string (tl (skip_ws s)) of
           None \<Rightarrow> None
         | Some (k, r1) \<Rightarrow>
             if take 1 (skip_ws r1) = '':'' then
               (case parse_value n (tl (skip_ws r1)) of
                  None \<Rightarrow> None
                | Some (v, r2) \<Rightarrow>
                    if take 1 (skip_ws r2) = '','' then
                      (case parse_members n (tl (skip_ws r2)) of
                         None \<Rightarrow> None
                       | Some (ms, rest) \<Rightarrow> Some ((k, v) # ms, rest))
                    else if take 1 (skip_ws r2) = ''}'' then Some ([(k, v)], tl (skip_ws r2))
                    else None)
             else None)
      else None)"

definition JSON_parse :: "string \<Rightarrow> json option" where
  "JSON_parse s =
     (case parse_value (Suc (length s)) s of
        None \<Rightarrow> None
      | Some (v, rest) \<Rightarrow> if skip_ws rest = [] then Some v else None)"

definition safeParseJson :: "string \<Rightarrow> json" where
  "safeParseJson raw = (case JSON_parse raw of Some v \<Rightarrow> v | None \<Rightarrow> JStr raw)"

section \<open>The event stream as the \<open>EventSource\<close> reads it\<close>

text \<open>
  The platform's interpretation of one frame of the stream (HTML standard, server-sent
  events): the text is cut into lines; a line \<open>field: value\<close> fills the data buffer, the
  event type or the last event id; a line starting with a colon is a comment; the empty
  line dispatches what was collected, unless the data buffer is empty. The result is the
  type of the first event dispatched and its \<open>MessageEvent\<close>.
\<close>

fun split_lines :: "string \<Rightarrow> string \<Rightarrow> string list" where
  "split_lines acc [] = []"
| "split_lines acc (c # cs) =
     (if c = LF then rev acc # split_lines [] cs else split_lines (c # acc) cs)"

record es_buffers =
  buf_data :: string
  buf_event :: string
  buf_id :: string

definition process_field :: "string \<Rightarrow> string \<Rightarrow> es_buffers \<Rightarrow> es_buffers" where
  "process_field field val b =
     (if field = ''event'' then b\<lparr>buf_event := val\<rparr>
      else if field = ''data'' then b\<lparr>buf_data := buf_data b @ val @ [LF]\<rparr>
      else if field = ''id'' then (if CHR 0x00 \<in> set val then b else b\<lparr>buf_id := val\<rparr>)
      else b)"

fun interpret_lines :: "string list \<Rightarrow> es_buffers \<Rightarrow> (string \<times> msg_event) option" where
  "interpret_lines [] b = None"
| "interpret_lines (l # ls) b =
     (if l = [] then
        (if buf_data b = [] then interpret_lines ls (b\<lparr>buf_event := []\<rparr>)
         else Some (if buf_event b = [] then ''message'' else buf_event b,
                    \<lparr>me_data = butlast (buf_data b), me_lastEventId = buf_id b\<rparr>))
      else if hd l = CHR '':'' then interpret_lines ls b
      else (let field = takeWhile (\<lambda>c. c \<noteq> CHR '':'') l;
                after = drop (Suc (length field)) l;
                val = (if take 1 after = '' '' then tl after else after)
            in interpret_lines ls (process_field field val b)))"

definition es_interpret :: "string \<Rightarrow> string \<Rightarrow> (string \<times> msg_event) option" where
  "es_interpret lastId frame =
     interpret_lines (split_lines [] frame) \<lparr>buf_data = [], buf_event = [], buf_id = lastId\<rparr>"

text \<open>The hook's configuration with every option left at its default.\<close>

definition default_config :: "string \<Rightarrow> (nat \<Rightarrow> arg list \<Rightarrow> bool) \<Rightarrow> config" where
  "default_config u th =
     \<lparr>urlString = u, parse = safeParseJson, reconnectEnabled = True, initialDelayMs = 1000,
      maxDelayMs = 15000, maxRetries = 10, throws = th\<rparr>"

lemmas json_eval =
  JSON_parse_def skip_ws_def is_ws_def parse_number_def is_digit_def digit_val_def
  obj_of_members_def safeParseJson_def

lemma frame_of_example:
  "formatMessage \<lparr>ev_event = Some ''x'', ev_data = Some (JObj [(''a'', JNum 1)]),
                    ev_id = Some ''42'', ev_retry = None\<rparr>
   = ''id: 42'' @ [LF] @ ''event: x'' @ [LF] @ ''data: {\"a\":1}'' @ [LF, LF]"
  by (simp add: formatMessage_def quote_def escape_char_def show_int_def show_nat.simps
      digit_char_def)

lemma interpret_example:
  "es_interpret [] (''id: 42'' @ [LF] @ ''event: x'' @ [LF] @ ''data: {\"a\":1}'' @ [LF, LF])
   = Some (''x'', \<lparr>me_data = ''{\"a\":1}'', me_lastEventId = ''42''\<rparr>)"
  by (simp add: es_interpret_def process_field_def)

lemma decode_example: "safeParseJson ''{\"a\":1}'' = JObj [(''a'', JNum 1)]"
  by (simp add: json_eval)

lemma decode_not_json: "safeParseJson ''not-json'' = JStr ''not-json''"
  by (simp add: json_eval)

text \<open>
  C3. The frame the sender's formatter builds for \<open>{event: "x", data: {a: 1}, id: "42"}\<close>
  is read by the \<open>EventSource\<close> as an event of type \<open>x\<close>; the named dispatcher of a
  hook that has a handler for \<open>x\<close>, with the default decoder, then publishes
  \<open>lastData = {a: 1}\<close>, \<open>lastEventId = "42"\<close> and \<open>lastEventName = "x"\<close>, and hands
  the handler the decoded data.
\<close>

theorem wire_round_trip:
  "(let frame = formatMessage \<lparr>ev_event = Some ''x'', ev_data = Some (JObj [(''a'', JNum 1)]),
                               ev_id = Some ''42'', ev_retry = None\<rparr>;
        cfg = default_config u th;
        s1 = addListener ''x'' fn s
    in case es_interpret lid frame of
         None \<Rightarrow> False
       | Some (name, ev) \<Rightarrow>
           name = ''x''
           \<and> lastData (state (dispatch cfg name ev s1)) = JObj [(''a'', JNum 1)]
           \<and> lastEventId (state (dispatch cfg name ev s1)) = Some ''42''
           \<and> lastEventName (state (dispatch cfg name ev s1)) = Some ''x''
           \<and> (fn, [AData (JObj [(''a'', JNum 1)]), AMessageEvent ev])
               \<in> set (calls_in (trace (dispatch cfg name ev s1))))"
proof -
  let ?ev = "\<lparr>me_data = ''{\"a\":1}'', me_lastEventId = ''42''\<rparr>"
  let ?cfg = "default_config u th"
  let ?s1 = "addListener ''x'' fn s"
  have i: "es_interpret lid (''id: 42'' @ [LF] @ ''event: x'' @ [LF] @ ''data: {\"a\":1}'' @ [LF, LF])
           = Some (''x'', ?ev)"
    by (simp add: es_interpret_def process_field_def)
  have h: "handlers_of ?s1 ''x'' \<noteq> []" "fn \<in> set (handlers_of ?s1 ''x'')"
    by (auto simp: handlers_of_addListener set_add_def)
  have p: "parse ?cfg (me_data ?ev) = JObj [(''a'', JNum 1)]"
    by (simp add: default_config_def decode_example)
  have d: "dispatch ?cfg ''x'' ?ev ?s1 =
      emit ?cfg ''x'' [AData (JObj [(''a'', JNum 1)]), AMessageEvent ?ev]
        (?s1\<lparr>state := (state ?s1)\<lparr>lastEventId := Some ''42'', lastEventName := Some ''x'',
                                      lastData := JObj [(''a'', JNum 1)]\<rparr>\<rparr>)"
    using h(1) unfolding dispatch_def Let_def p
    by (simp add: handlers_of_def split: option.splits)
  have st: "state (dispatch ?cfg ''x'' ?ev ?s1) =
      (state ?s1)\<lparr>lastEventId := Some ''42'', lastEventName := Some ''x'',
                    lastData := JObj [(''a'', JNum 1)]\<rparr>"
    unfolding d by (simp add: emit_eq)
  have c: "(fn, [AData (JObj [(''a'', JNum 1)]), AMessageEvent ?ev])
               \<in> set (calls_in (trace (dispatch ?cfg ''x'' ?ev ?s1)))"
    unfolding d using h(2)
    by (simp add: emit_eq calls_in_append calls_in_emitted handlers_of_def)
  show ?thesis
    unfolding Let_def frame_of_example i using st c by simp
qed

lemma backoff_capped:
  assumes "initialDelayMs cfg = 1000" "maxDelayMs cfg = 15000" "4 \<le> n"
  shows "backoff_delay cfg n = 15000"
proof -
  have "(2::int) ^ 4 \<le> 2 ^ n" using assms(3) by (intro power_increasing) simp_all
  then have "(15000::int) \<le> 1000 * 2 ^ n" by simp
  then show ?thesis using assms(1,2) by (simp add: backoff_delay_def)
qed

text \<open>
  C1. With the default delays and retry limit, the delay for attempt \<open>n\<close> is
  \<open>min (1000 * 2 ^ n) 15000\<close>: 1000, 2000, 4000, 8000 and 15000 from the fifth attempt on.
  \<open>scheduleReconnect\<close> arms a timer exactly when reconnecting is enabled, the hook is not
  destroyed and fewer than 10 attempts were made; it then counts the attempt, and the timer
  carries the delay of the attempt number before the increment. Otherwise it changes
  nothing.
\<close>

theorem reconnect_policy_defaults:
  assumes "initialDelayMs cfg = 1000" and "maxDelayMs cfg = 15000" and "maxRetries cfg = 10"
  shows "backoff_delay cfg n = min (1000 * 2 ^ n) 15000
       \<and> map (backoff_delay cfg) [0..<6] = [1000, 2000, 4000, 8000, 15000, 15000]
       \<and> (if 4 \<le> n then backoff_delay cfg n = 15000 else backoff_delay cfg n = 1000 * 2 ^ n)
       \<and> scheduleReconnect cfg s =
           (if reconnectEnabled cfg \<and> \<not> destroyedRef s \<and> retryRef s < 10
            then s\<lparr>retryRef := retryRef s + 1,
                   timerRef := Some (next_timer s),
                   timers := timers s @ [(next_timer s, backoff_delay cfg (retryRef s))],
                   next_timer := next_timer s + 1,
                   trace := trace s @ [Reconnecting (backoff_delay cfg (retryRef s))]\<rparr>
            else s)"
proof -
  have a: "backoff_delay cfg n = min (1000 * 2 ^ n) 15000"
    using assms by (simp add: backoff_delay_def)
  have b: "map (backoff_delay cfg) [0..<6] = [1000, 2000, 4000, 8000, 15000, 15000]"
    using assms by (simp add: backoff_delay_def upt_rec)
  have c: "(if 4 \<le> n then backoff_delay cfg n = 15000 else backoff_delay cfg n = 1000 * 2 ^ n)"
  proof (cases "4 \<le> n")
    case True
    then show ?thesis using backoff_capped [OF assms(1,2)] by simp
  next
    case False
    then have "n = 0 \<or> n = 1 \<or> n = 2 \<or> n = 3" by arith
    then show ?thesis using False assms by (auto simp: backoff_delay_def)
  qed
  have d: "scheduleReconnect cfg s =
           (if reconnectEnabled cfg \<and> \<not> destroyedRef s \<and> retryRef s < 10
            then s\<lparr>retryRef := retryRef s + 1,
                   timerRef := Some (next_timer s),
                   timers := timers s @ [(next_timer s, backoff_delay cfg (retryRef s))],
                   next_timer := next_timer s + 1,
                   trace := trace s @ [Reconnecting (backoff_delay cfg (retryRef s))]\<rparr>
            else s)"
    using assms(3) by (auto simp: scheduleReconnect_def Let_def)
  show ?thesis using a b c d by blast
qed

text \<open>
  A run of the default hook in which every connection attempt fails for good: the first
  connect and ten reconnects, each closed by a fatal error. The ten timers carry the delays
  of the claim, and the eleventh failure arms none.
\<close>

fun failing_run :: "nat \<Rightarrow> nat \<Rightarrow> event list" where
  "failing_run h 0 = []"
| "failing_run h (Suc k) = EsError h 0 True # TimerFire (Suc h) # failing_run (Suc h) k"

definition quiet :: "nat \<Rightarrow> arg list \<Rightarrow> bool" where
  "quiet fn args = False"

lemmas hook_eval =
  Let_def initial_def default_config_def connect_def cleanup_def clearTimeout_def
  source_state_def on_source_def onerror_def emit_def scheduleReconnect_def backoff_delay_def
  es_close_def disconnect_def

definition awaiting :: "nat \<Rightarrow> hook \<Rightarrow> bool" where
  "awaiting h s \<longleftrightarrow>
     eventSourceRef s = Some h \<and> length (sources s) = Suc h
     \<and> es_readyState (sources s ! h) = 0 \<and> es_listeners (sources s ! h) = []
     \<and> timers s = [] \<and> next_timer s = Suc h \<and> retryRef s = h
     \<and> destroyedRef s = False \<and> dispatchersRef s = [] \<and> listenersRef s = []"

lemma failing_cycle:
  assumes "awaiting h s" "h < 10"
  shows "\<exists>s'. run (default_config u quiet) [EsError h 0 True, TimerFire (Suc h)] s = Some s'
      \<and> awaiting (Suc h) s'
      \<and> trace s' = trace s @ [Reconnecting (min (1000 * 2 ^ h) 15000)]"
  using assms
  by (simp add: awaiting_def hook_eval nth_append)

lemma run_append:
  "run cfg (xs @ ys) s = (case run cfg xs s of None \<Rightarrow> None | Some s1 \<Rightarrow> run cfg ys s1)"
  by (induction xs arbitrary: s) (simp_all split: option.splits)

lemma failing_run_trace:
  "awaiting h s \<Longrightarrow> h + k \<le> 10 \<Longrightarrow>
   \<exists>s'. run (default_config u quiet) (failing_run h k) s = Some s'
      \<and> awaiting (h + k) s'
      \<and> trace s' = trace s @ map (\<lambda>n. Reconnecting (min (1000 * 2 ^ n) 15000)) [h..<h + k]"
proof (induction k arbitrary: h s)
  case 0
  then show ?case by simp
next
  case (Suc k)
  have hl: "h < 10" using Suc.prems(2) by simp
  obtain s1 where s1: "run (default_config u quiet) [EsError h 0 True, TimerFire (Suc h)] s = Some s1"
      "awaiting (Suc h) s1" "trace s1 = trace s @ [Reconnecting (min (1000 * 2 ^ h) 15000)]"
    using failing_cycle [OF Suc.prems(1) hl] by blast
  have "Suc h + k \<le> 10" using Suc.prems(2) by simp
  from Suc.IH [OF s1(2) this] obtain s2 where
    s2: "run (default_config u quiet) (failing_run (Suc h) k) s1 = Some s2"
      "awaiting (Suc h + k) s2"
      "trace s2 = trace s1 @ map (\<lambda>n. Reconnecting (min (1000 * 2 ^ n) 15000)) [Suc h..<Suc h + k]"
    by blast
  have r: "run (default_config u quiet) (failing_run h (Suc k)) s = Some s2"
    using run_append [of "default_config u quiet" "[EsError h 0 True, TimerFire (Suc h)]"
        "failing_run (Suc h) k" s] s1(1) s2(1)
    by simp
  have "[h..<h + Suc k] = h # [Suc h..<Suc h + k]" by (simp add: upt_rec)
  then have t: "trace s2 = trace s @ map (\<lambda>n. Reconnecting (min (1000 * 2 ^ n) 15000)) [h..<h + Suc k]"
    using s2(3) s1(3) by simp
  show ?case using r s2(2) t by simp
qed

lemma exhausted_attempts:
  assumes "awaiting 10 s"
  shows "\<exists>s'. run (default_config u quiet) [EsError 10 0 True] s = Some s'
      \<and> timers s' = [] \<and> retryRef s' = 10 \<and> trace s' = trace s
      \<and> step (default_config u quiet) (TimerFire 11) s' = None"
  using assms by (simp add: awaiting_def hook_eval)

lemma awaiting_after_connect: "awaiting 0 (connect (initial (default_config u quiet) lid))"
  by (simp add: awaiting_def hook_eval)

theorem reconnect_policy_defaults_witness:
  "(\<exists>s. run (default_config ''/api/sse'' quiet) (Connect # failing_run 0 10 @ [EsError 10 0 True])
          (initial (default_config ''/api/sse'' quiet) None) = Some s
        \<and> delays_in (trace s)
            = [1000, 2000, 4000, 8000, 15000, 15000, 15000, 15000, 15000, 15000]
        \<and> timers s = [] \<and> retryRef s = 10
        \<and> step (default_config ''/api/sse'' quiet) (TimerFire 11) s = None
        \<and> scheduleReconnect (default_config ''/api/sse'' quiet) s = s)
   \<and> backoff_delay (default_config ''/api/sse'' quiet) 7 = 15000"
proof -
  let ?cfg = "default_config ''/api/sse'' quiet"
  let ?init = "connect (initial ?cfg None)"
  have t0: "trace ?init = []" by (simp add: hook_eval)
  obtain s1 where s1: "run ?cfg (failing_run 0 10) ?init = Some s1" "awaiting 10 s1"
      "trace s1 = trace ?init @ map (\<lambda>n. Reconnecting (min (1000 * 2 ^ n) 15000)) [0..<0 + 10]"
    using failing_run_trace [where k = 10 and u = "''/api/sse''" and h = 0,
        OF awaiting_after_connect [where u = "''/api/sse''" and lid = None]]
    by auto
  obtain s2 where s2: "run ?cfg [EsError 10 0 True] s1 = Some s2" "timers s2 = []"
      "retryRef s2 = 10" "trace s2 = trace s1" "step ?cfg (TimerFire 11) s2 = None"
    using exhausted_attempts [OF s1(2)] by blast
  have r: "run ?cfg (Connect # failing_run 0 10 @ [EsError 10 0 True]) (initial ?cfg None) = Some s2"
    using run_append [of ?cfg "failing_run 0 10" "[EsError 10 0 True]" ?init] s1(1) s2(1) by simp
  have d: "delays_in (trace s2) = [1000, 2000, 4000, 8000, 15000, 15000, 15000, 15000, 15000, 15000]"
    unfolding s2(4) s1(3) t0 by (simp add: upt_rec)
  have defaults: "initialDelayMs ?cfg = 1000" "maxDelayMs ?cfg = 15000" "maxRetries ?cfg = 10"
    by (simp_all add: default_config_def)
  note t = reconnect_policy_defaults [OF defaults, of 7 s2]
  have e: "scheduleReconnect ?cfg s2 = s2" using t s2(3) by simp
  have f: "backoff_delay ?cfg 7 = 15000" using t by simp
  show ?thesis using r d s2(2,3,5) e f by blast
qed

definition first_throws :: "nat \<Rightarrow> arg list \<Rightarrow> bool" where
  "first_throws fn args \<longleftrightarrow> fn = 1"

theorem emit_invokes_every_handler_in_order_witness:
  "(let cfg = default_config ''/api/sse'' first_throws;
        s = addListener ''notification'' 2 (addListener ''notification'' 1 (initial cfg None));
        ev = \<lparr>me_data = ''hi'', me_lastEventId = []\<rparr>;
        s' = dispatch cfg ''notification'' ev s
    in handlers_of s ''notification'' = [1, 2]
       \<and> calls_in (trace s')
           = [(1, [AData (JStr ''hi''), AMessageEvent ev]), (2, [AData (JStr ''hi''), AMessageEvent ev])]
       \<and> reports_in (trace s') = [(''notification'', 1)])"
proof -
  let ?cfg = "default_config ''/api/sse'' first_throws"
  let ?init = "initial ?cfg None"
  let ?s = "addListener ''notification'' 2 (addListener ''notification'' 1 ?init)"
  let ?ev = "\<lparr>me_data = ''hi'', me_lastEventId = []\<rparr>"
  have h0: "handlers_of ?init ''notification'' = []"
    by (simp add: handlers_of_def initial_def)
  have h: "handlers_of ?s ''notification'' = [1, 2]"
    by (simp add: handlers_of_addListener h0 set_add_def)
  have t: "trace ?s = []"
    by (simp add: addListener_def Let_def attachNamedIfNeeded_keeps initial_def)
  have p: "parse ?cfg (me_data ?ev) = JStr ''hi''"
    by (simp add: default_config_def json_eval)
  note inst = emit_invokes_every_handler_in_order
      [of ?cfg "''notification''" "[AData (JStr ''hi''), AMessageEvent ?ev]" ?s 0 ?ev 0 0]
  have c: "calls_in (trace (dispatch ?cfg ''notification'' ?ev ?s))
           = [(1, [AData (JStr ''hi''), AMessageEvent ?ev]), (2, [AData (JStr ''hi''), AMessageEvent ?ev])]"
    using inst unfolding h t p by simp
  have d: "dispatch ?cfg ''notification'' ?ev ?s
      = emit ?cfg ''notification'' [AData (JStr ''hi''), AMessageEvent ?ev]
          (?s\<lparr>state := (state ?s)\<lparr>lastEventId := lastEventId (state ?s),
                   lastEventName := Some ''notification'', lastData := JStr ''hi''\<rparr>\<rparr>)"
    using h unfolding dispatch_def Let_def p
    by (simp add: handlers_of_def split: option.splits)
  have r: "reports_in (trace (dispatch ?cfg ''notification'' ?ev ?s)) = [(''notification'', 1)]"
    unfolding d
    using h t
    by (simp add: emit_eq reports_in_append reports_in_emitted handlers_of_def
        default_config_def first_throws_def)
  show ?thesis unfolding Let_def using h c r by blast
qed

theorem wire_round_trip_witness:
  "(let frame = formatMessage \<lparr>ev_event = Some ''x'', ev_data = Some (JObj [(''a'', JNum 1)]),
                               ev_id = Some ''42'', ev_retry = None\<rparr>;
        cfg = default_config ''/api/sse'' quiet;
        s1 = addListener ''x'' 7 (initial cfg None)
    in frame = ''id: 42'' @ [LF] @ ''event: x'' @ [LF] @ ''data: {\"a\":1}'' @ [LF, LF]
       \<and> es_interpret [] frame = Some (''x'', \<lparr>me_data = ''{\"a\":1}'', me_lastEventId = ''42''\<rparr>)
       \<and> lastData (state (dispatch cfg ''x'' \<lparr>me_data = ''{\"a\":1}'', me_lastEventId = ''42''\<rparr> s1))
           = JObj [(''a'', JNum 1)]
       \<and> lastEventId (state (dispatch cfg ''x'' \<lparr>me_data = ''{\"a\":1}'', me_lastEventId = ''42''\<rparr> s1))
           = Some ''42''
       \<and> lastEventName (state (dispatch cfg ''x'' \<lparr>me_data = ''{\"a\":1}'', me_lastEventId = ''42''\<rparr> s1))
           = Some ''x'')"
  using wire_round_trip [of "''/api/sse''" quiet 7
      "initial (default_config ''/api/sse'' quiet) None" "[]"]
  unfolding Let_def frame_of_example interpret_example
  by simp

section \<open>Invariants of the receiver\<close>

definition named :: "hook \<Rightarrow> string list" where
  "named s = filter (\<lambda>n. \<not> isReservedEvent n) (map fst (listenersRef s))"

definition att_ok :: "hook \<Rightarrow> bool" where
  "att_ok s \<longleftrightarrow>
     distinct (dispatchersRef s)
     \<and> set (dispatchersRef s) \<subseteq> set (named s)
     \<and> (eventSourceRef s = None \<longrightarrow> dispatchersRef s = [])
     \<and> (\<forall>h. eventSourceRef s = Some h \<longrightarrow>
            h < length (sources s) \<and> es_listeners (sources s ! h) = dispatchersRef s)"

definition ready :: "hook \<Rightarrow> nat list" where
  "ready s = map es_readyState (sources s)"

definition life_ok :: "hook \<Rightarrow> bool" where
  "life_ok s \<longleftrightarrow>
     (\<forall>h < length (ready s). eventSourceRef s \<noteq> Some h \<longrightarrow> ready s ! h = 2)
     \<and> (\<forall>(t, d) \<in> set (timers s). timerRef s = Some t)
     \<and> (timers s \<noteq> [] \<longrightarrow> (\<forall>r \<in> set (ready s). r = 2))"

lemma source_state_ready:
  "source_state s h = (if h < length (ready s) then ready s ! h else 2)"
  by (simp add: source_state_def ready_def)

lemma ready_updates [simp]:
  "ready (s\<lparr>eventSourceRef := a\<rparr>) = ready s"
  "ready (s\<lparr>retryRef := b\<rparr>) = ready s"
  "ready (s\<lparr>timerRef := c\<rparr>) = ready s"
  "ready (s\<lparr>timers := d\<rparr>) = ready s"
  "ready (s\<lparr>next_timer := e\<rparr>) = ready s"
  "ready (s\<lparr>destroyedRef := f\<rparr>) = ready s"
  "ready (s\<lparr>listenersRef := g\<rparr>) = ready s"
  "ready (s\<lparr>dispatchersRef := i\<rparr>) = ready s"
  "ready (s\<lparr>state := j\<rparr>) = ready s"
  "ready (s\<lparr>trace := k\<rparr>) = ready s"
  by (simp_all add: ready_def)

lemma map_update_same: "(map f xs)[i := f (xs ! i)] = map f xs"
  by (simp add: map_update [symmetric])

lemma on_source_ready:
  "(\<And>e. es_readyState (f e) = es_readyState e) \<Longrightarrow> ready (on_source h f s) = ready s"
  by (simp add: on_source_def ready_def map_update map_update_same)

lemma on_source_fields:
  "eventSourceRef (on_source h f s) = eventSourceRef s"
  "retryRef (on_source h f s) = retryRef s"
  "timerRef (on_source h f s) = timerRef s"
  "timers (on_source h f s) = timers s"
  "next_timer (on_source h f s) = next_timer s"
  "destroyedRef (on_source h f s) = destroyedRef s"
  "listenersRef (on_source h f s) = listenersRef s"
  "dispatchersRef (on_source h f s) = dispatchersRef s"
  "state (on_source h f s) = state s"
  "trace (on_source h f s) = trace s"
  "length (sources (on_source h f s)) = length (sources s)"
  by (simp_all add: on_source_def)

definition sync_ok :: "hook \<Rightarrow> bool" where
  "sync_ok s \<longleftrightarrow>
     (\<forall>h. eventSourceRef s = Some h \<and> source_state s h = 1 \<longrightarrow>
          set (dispatchersRef s) = set (named s))"

lemma emit_fields:
  "eventSourceRef (emit cfg n a s) = eventSourceRef s"
  "sources (emit cfg n a s) = sources s"
  "retryRef (emit cfg n a s) = retryRef s"
  "timerRef (emit cfg n a s) = timerRef s"
  "timers (emit cfg n a s) = timers s"
  "next_timer (emit cfg n a s) = next_timer s"
  "destroyedRef (emit cfg n a s) = destroyedRef s"
  "listenersRef (emit cfg n a s) = listenersRef s"
  "dispatchersRef (emit cfg n a s) = dispatchersRef s"
  "state (emit cfg n a s) = state s"
  by (simp_all add: emit_eq)

lemma named_cong: "listenersRef s' = listenersRef s \<Longrightarrow> named s' = named s"
  by (simp add: named_def)

lemma source_state_cong: "ready s' = ready s \<Longrightarrow> source_state s' h = source_state s h"
  by (simp add: source_state_ready)

lemma att_ok_cong:
  "att_ok s \<Longrightarrow> dispatchersRef s' = dispatchersRef s \<Longrightarrow> listenersRef s' = listenersRef s \<Longrightarrow>
   eventSourceRef s' = eventSourceRef s \<Longrightarrow> sources s' = sources s \<Longrightarrow> att_ok s'"
  by (simp add: att_ok_def named_def)

lemma life_ok_cong:
  "life_ok s \<Longrightarrow> timers s' = timers s \<Longrightarrow> timerRef s' = timerRef s \<Longrightarrow>
   eventSourceRef s' = eventSourceRef s \<Longrightarrow> ready s' = ready s \<Longrightarrow> life_ok s'"
  by (simp add: life_ok_def)

lemma sync_ok_cong:
  "sync_ok s \<Longrightarrow> dispatchersRef s' = dispatchersRef s \<Longrightarrow> listenersRef s' = listenersRef s \<Longrightarrow>
   eventSourceRef s' = eventSourceRef s \<Longrightarrow> ready s' = ready s \<Longrightarrow> sync_ok s'"
  by (simp add: sync_ok_def named_def source_state_ready)

subsection \<open>Attaching\<close>

lemma attachNamedIfNeeded_att:
  assumes "att_ok s" "name \<in> fst ` set (listenersRef s)"
  shows "att_ok (attachNamedIfNeeded name s)"
    and "set (dispatchersRef (attachNamedIfNeeded name s)) =
           set (dispatchersRef s)
           \<union> (if isReservedEvent name \<or> eventSourceRef s = None then {} else {name})"
    and "eventSourceRef (attachNamedIfNeeded name s) = eventSourceRef s"
    and "ready (attachNamedIfNeeded name s) = ready s"
    and "timers (attachNamedIfNeeded name s) = timers s"
    and "timerRef (attachNamedIfNeeded name s) = timerRef s"
proof -
  show "att_ok (attachNamedIfNeeded name s)"
    using assms
    by (auto simp: att_ok_def attachNamedIfNeeded_def on_source_def addEventListener_def
        named_def split: option.splits)
  show "set (dispatchersRef (attachNamedIfNeeded name s)) =
           set (dispatchersRef s)
           \<union> (if isReservedEvent name \<or> eventSourceRef s = None then {} else {name})"
    by (auto simp: attachNamedIfNeeded_def on_source_def split: option.splits)
  show "eventSourceRef (attachNamedIfNeeded name s) = eventSourceRef s"
    by (simp add: attachNamedIfNeeded_def on_source_def split: option.splits)
  show "ready (attachNamedIfNeeded name s) = ready s"
    by (simp add: attachNamedIfNeeded_def on_source_ready addEventListener_def
        split: option.splits)
  show "timers (attachNamedIfNeeded name s) = timers s"
    by (simp add: attachNamedIfNeeded_def on_source_def split: option.splits)
  show "timerRef (attachNamedIfNeeded name s) = timerRef s"
    by (simp add: attachNamedIfNeeded_def on_source_def split: option.splits)
qed

lemma set_named:
  "set (named s) = {n. n \<in> fst ` set (listenersRef s) \<and> \<not> isReservedEvent n}"
  by (auto simp: named_def)

lemma attach_fold:
  assumes "att_ok s" "set ns \<subseteq> fst ` set (listenersRef s)"
  shows "att_ok (fold (\<lambda>name s'. if isReservedEvent name then s' else attachNamedIfNeeded name s') ns s)
    \<and> set (dispatchersRef (fold (\<lambda>name s'. if isReservedEvent name then s' else attachNamedIfNeeded name s') ns s))
        = set (dispatchersRef s)
          \<union> (if eventSourceRef s = None then {} else {n \<in> set ns. \<not> isReservedEvent n})
    \<and> eventSourceRef (fold (\<lambda>name s'. if isReservedEvent name then s' else attachNamedIfNeeded name s') ns s)
        = eventSourceRef s
    \<and> ready (fold (\<lambda>name s'. if isReservedEvent name then s' else attachNamedIfNeeded name s') ns s)
        = ready s
    \<and> timers (fold (\<lambda>name s'. if isReservedEvent name then s' else attachNamedIfNeeded name s') ns s)
        = timers s
    \<and> timerRef (fold (\<lambda>name s'. if isReservedEvent name then s' else attachNamedIfNeeded name s') ns s)
        = timerRef s"
  using assms
proof (induction ns arbitrary: s)
  case Nil
  then show ?case by simp
next
  case (Cons n ns)
  let ?s1 = "if isReservedEvent n then s else attachNamedIfNeeded n s"
  have nin: "n \<in> fst ` set (listenersRef s)" using Cons.prems(2) by simp
  note a = attachNamedIfNeeded_att [OF Cons.prems(1) nin]
  have l1: "listenersRef ?s1 = listenersRef s" by (simp add: attachNamedIfNeeded_keeps)
  have ok1: "att_ok ?s1" using a(1) Cons.prems(1) by simp
  have sub1: "set ns \<subseteq> fst ` set (listenersRef ?s1)" using Cons.prems(2) l1 by simp
  have d1: "set (dispatchersRef ?s1) =
       set (dispatchersRef s) \<union> (if isReservedEvent n \<or> eventSourceRef s = None then {} else {n})"
    using a(2) by simp
  have e1: "eventSourceRef ?s1 = eventSourceRef s" "ready ?s1 = ready s"
      "timers ?s1 = timers s" "timerRef ?s1 = timerRef s"
    using a(3,4,5,6) by simp_all
  note ih = Cons.IH [OF ok1 sub1]
  have f: "fold (\<lambda>name s'. if isReservedEvent name then s' else attachNamedIfNeeded name s') (n # ns) s
         = fold (\<lambda>name s'. if isReservedEvent name then s' else attachNamedIfNeeded name s') ns ?s1"
    by simp
  show ?case unfolding f using ih d1 e1 by auto
qed

lemma attachAllNamed_inv:
  assumes "att_ok s"
  shows "att_ok (attachAllNamed s)"
    and "set (dispatchersRef (attachAllNamed s))
        = set (dispatchersRef s) \<union> (if eventSourceRef s = None then {} else set (named s))"
    and "eventSourceRef (attachAllNamed s) = eventSourceRef s"
    and "ready (attachAllNamed s) = ready s"
    and "timers (attachAllNamed s) = timers s"
    and "timerRef (attachAllNamed s) = timerRef s"
  using attach_fold [OF assms, of "map fst (listenersRef s)"]
  by (auto simp: attachAllNamed_def named_def)

subsection \<open>Subscribing and unsubscribing\<close>

lemma addListener_inv:
  assumes "att_ok s"
  shows "att_ok (addListener name fn s)"
    and "set (dispatchersRef (addListener name fn s))
        = set (dispatchersRef s)
          \<union> (if isReservedEvent name \<or> eventSourceRef s = None then {} else {name})"
    and "set (named (addListener name fn s))
        = set (named s) \<union> (if isReservedEvent name then {} else {name})"
    and "eventSourceRef (addListener name fn s) = eventSourceRef s"
    and "ready (addListener name fn s) = ready s"
    and "timers (addListener name fn s) = timers s"
    and "timerRef (addListener name fn s) = timerRef s"
    and "trace (addListener name fn s) = trace s"
proof -
  let ?set0 = "case map_of (listenersRef s) name of None \<Rightarrow> [] | Some x \<Rightarrow> x"
  let ?s1 = "s\<lparr>listenersRef := AList.update name (set_add fn ?set0) (listenersRef s)\<rparr>"
  have e: "addListener name fn s = attachNamedIfNeeded name ?s1"
    by (simp add: addListener_def Let_def)
  have keys: "fst ` set (listenersRef ?s1) = insert name (fst ` set (listenersRef s))"
    by (simp add: dom_update)
  have n1: "set (named ?s1) = set (named s) \<union> (if isReservedEvent name then {} else {name})"
    unfolding set_named keys by auto
  have ok1: "att_ok ?s1"
    using assms n1 by (auto simp: att_ok_def)
  have nin: "name \<in> fst ` set (listenersRef ?s1)" unfolding keys by simp
  note a = attachNamedIfNeeded_att [OF ok1 nin]
  show "att_ok (addListener name fn s)" unfolding e by (rule a(1))
  show "set (dispatchersRef (addListener name fn s))
        = set (dispatchersRef s)
          \<union> (if isReservedEvent name \<or> eventSourceRef s = None then {} else {name})"
    unfolding e using a(2) by simp
  show "set (named (addListener name fn s))
        = set (named s) \<union> (if isReservedEvent name then {} else {name})"
    unfolding e using n1 named_cong [OF attachNamedIfNeeded_keeps(1), of name ?s1] by simp
  show "eventSourceRef (addListener name fn s) = eventSourceRef s"
    unfolding e using a(3) by simp
  show "ready (addListener name fn s) = ready s" unfolding e using a(4) by simp
  show "timers (addListener name fn s) = timers s" unfolding e using a(5) by simp
  show "timerRef (addListener name fn s) = timerRef s" unfolding e using a(6) by simp
  show "trace (addListener name fn s) = trace s"
    unfolding e by (simp add: attachNamedIfNeeded_keeps)
qed

lemma unsubscribe_inv:
  assumes "att_ok s"
  shows "att_ok (unsubscribe name fn s)"
    and "set (named s) - {name} \<subseteq> set (named (unsubscribe name fn s))"
    and "set (named (unsubscribe name fn s)) \<subseteq> set (named s)"
    and "set (dispatchersRef (unsubscribe name fn s))
         = set (dispatchersRef s) \<inter> set (named (unsubscribe name fn s))"
    and "eventSourceRef (unsubscribe name fn s) = eventSourceRef s"
    and "ready (unsubscribe name fn s) = ready s"
    and "timers (unsubscribe name fn s) = timers s"
    and "timerRef (unsubscribe name fn s) = timerRef s"
    and "trace (unsubscribe name fn s) = trace s"
proof -
  let ?u = "unsubscribe name fn s"
  have d: "distinct (dispatchersRef s)" and sub: "set (dispatchersRef s) \<subseteq> set (named s)"
    and none: "eventSourceRef s = None \<Longrightarrow> dispatchersRef s = []"
    and some: "\<And>h. eventSourceRef s = Some h \<Longrightarrow>
                 h < length (sources s) \<and> es_listeners (sources s ! h) = dispatchersRef s"
    using assms by (auto simp: att_ok_def)
  have notres: "name \<in> set (dispatchersRef s) \<Longrightarrow> \<not> isReservedEvent name"
    using sub by (auto simp: set_named)
  consider (absent) "map_of (listenersRef s) name = None"
    | (stay) cur where "map_of (listenersRef s) name = Some cur" "removeAll fn cur \<noteq> []"
    | (last) cur where "map_of (listenersRef s) name = Some cur" "removeAll fn cur = []"
    by (cases "map_of (listenersRef s) name") auto
  then have main: "att_ok ?u \<and> set (named s) - {name} \<subseteq> set (named ?u)
      \<and> set (named ?u) \<subseteq> set (named s)
      \<and> set (dispatchersRef ?u) = set (dispatchersRef s) \<inter> set (named ?u)
      \<and> eventSourceRef ?u = eventSourceRef s \<and> ready ?u = ready s
      \<and> timers ?u = timers s \<and> timerRef ?u = timerRef s \<and> trace ?u = trace s"
  proof cases
    case absent
    then have "?u = s" by (simp add: unsubscribe_def)
    then show ?thesis using assms sub by auto
  next
    case stay
    then have u: "?u = s\<lparr>listenersRef := AList.update name (removeAll fn cur) (listenersRef s)\<rparr>"
      by (simp add: unsubscribe_def Let_def)
    have "name \<in> fst ` set (listenersRef s)"
      using stay(1) by (metis map_of_eq_None_iff option.distinct(1))
    then have keys: "fst ` set (listenersRef ?u) = fst ` set (listenersRef s)"
      unfolding u by (auto simp: dom_update)
    have n: "set (named ?u) = set (named s)" unfolding set_named keys by simp
    have f: "dispatchersRef ?u = dispatchersRef s" "eventSourceRef ?u = eventSourceRef s"
        "sources ?u = sources s" "timers ?u = timers s" "timerRef ?u = timerRef s"
        "trace ?u = trace s" "ready ?u = ready s"
      unfolding u by simp_all
    have ok: "att_ok ?u"
      unfolding att_ok_def f n using assms by (simp add: att_ok_def)
    show ?thesis using ok n f sub by auto
  next
    case last
    let ?s1 = "s\<lparr>listenersRef := AList.delete name (listenersRef s)\<rparr>"
    let ?s2 = "case eventSourceRef ?s1 of
                 None \<Rightarrow> ?s1
               | Some h \<Rightarrow>
                   if name \<in> set (dispatchersRef ?s1) \<and> \<not> isReservedEvent name
                   then on_source h (removeEventListener name) ?s1
                   else ?s1"
    have u: "?u = ?s2\<lparr>dispatchersRef := removeAll name (dispatchersRef ?s2)\<rparr>"
      using last by (simp add: unsubscribe_def Let_def)
    have l: "listenersRef ?u = AList.delete name (listenersRef s)"
      unfolding u by (simp add: on_source_fields split: option.splits)
    have keys: "fst ` set (listenersRef ?u) = fst ` set (listenersRef s) - {name}"
      unfolding l by (auto simp: AList.delete_eq)
    have n: "set (named ?u) = set (named s) - {name}" unfolding set_named keys by auto
    have dd: "dispatchersRef ?u = removeAll name (dispatchersRef s)"
      unfolding u by (simp add: on_source_fields split: option.splits)
    have r: "eventSourceRef ?u = eventSourceRef s" "timers ?u = timers s"
        "timerRef ?u = timerRef s" "trace ?u = trace s"
      unfolding u by (simp_all add: on_source_fields split: option.splits)
    have rd: "ready ?u = ready s"
      unfolding u by (simp add: on_source_ready removeEventListener_def split: option.splits)
    have src: "\<And>h. eventSourceRef s = Some h \<Longrightarrow>
                 h < length (sources ?u) \<and> es_listeners (sources ?u ! h) = dispatchersRef ?u"
    proof -
      fix h assume h: "eventSourceRef s = Some h"
      note sh = some [OF h]
      show "h < length (sources ?u) \<and> es_listeners (sources ?u ! h) = dispatchersRef ?u"
      proof (cases "name \<in> set (dispatchersRef s)")
        case True
        then have "sources ?u = (sources s)[h := removeEventListener name (sources s ! h)]"
          unfolding u using h sh notres by (simp add: on_source_def)
        then show ?thesis
          using sh d True unfolding dd
          by (simp add: removeEventListener_def distinct_remove1_removeAll)
      next
        case False
        then have "sources ?u = sources s" unfolding u using h by simp
        then show ?thesis using sh False unfolding dd by simp
      qed
    qed
    have ok: "att_ok ?u"
      unfolding att_ok_def r(1) n
      using d sub none src unfolding dd by (auto simp: distinct_removeAll)
    show ?thesis using ok n r rd sub unfolding dd by auto
  qed
  show "att_ok (unsubscribe name fn s)"
    and "set (named s) - {name} \<subseteq> set (named (unsubscribe name fn s))"
    and "set (named (unsubscribe name fn s)) \<subseteq> set (named s)"
    and "set (dispatchersRef (unsubscribe name fn s))
         = set (dispatchersRef s) \<inter> set (named (unsubscribe name fn s))"
    and "eventSourceRef (unsubscribe name fn s) = eventSourceRef s"
    and "ready (unsubscribe name fn s) = ready s"
    and "timers (unsubscribe name fn s) = timers s"
    and "timerRef (unsubscribe name fn s) = timerRef s"
    and "trace (unsubscribe name fn s) = trace s"
    using main by blast+
qed

subsection \<open>Tearing down and connecting\<close>

definition dormant :: "hook \<Rightarrow> bool" where
  "dormant s \<longleftrightarrow>
     timers s = [] \<and> eventSourceRef s = None \<and> dispatchersRef s = []
     \<and> (\<forall>r \<in> set (ready s). r = 2)"

lemma dormant_inv: "dormant s \<Longrightarrow> att_ok s \<and> life_ok s \<and> sync_ok s"
  by (simp add: dormant_def att_ok_def life_ok_def sync_ok_def)

lemma fold_remove_fields:
  "eventSourceRef (fold (\<lambda>name. on_source h (removeEventListener name)) ns s) = eventSourceRef s
   \<and> timers (fold (\<lambda>name. on_source h (removeEventListener name)) ns s) = timers s
   \<and> timerRef (fold (\<lambda>name. on_source h (removeEventListener name)) ns s) = timerRef s
   \<and> listenersRef (fold (\<lambda>name. on_source h (removeEventListener name)) ns s) = listenersRef s
   \<and> trace (fold (\<lambda>name. on_source h (removeEventListener name)) ns s) = trace s
   \<and> state (fold (\<lambda>name. on_source h (removeEventListener name)) ns s) = state s
   \<and> destroyedRef (fold (\<lambda>name. on_source h (removeEventListener name)) ns s) = destroyedRef s
   \<and> retryRef (fold (\<lambda>name. on_source h (removeEventListener name)) ns s) = retryRef s
   \<and> ready (fold (\<lambda>name. on_source h (removeEventListener name)) ns s) = ready s"
  by (induction ns arbitrary: s)
    (simp_all add: on_source_fields on_source_ready removeEventListener_def)

lemma close_ready: "ready (on_source h es_close s) = (ready s)[h := 2]"
  by (simp add: on_source_def ready_def es_close_def map_update not_less list_update_beyond)

lemma cleanup_fields:
  "eventSourceRef (cleanup s) = None"
  "dispatchersRef (cleanup s) = []"
  "timerRef (cleanup s) = None"
  "timers (cleanup s) = (case timerRef s of None \<Rightarrow> timers s
                         | Some t \<Rightarrow> filter (\<lambda>(i, d). i \<noteq> t) (timers s))"
  "ready (cleanup s) = (case eventSourceRef s of None \<Rightarrow> ready s | Some h \<Rightarrow> (ready s)[h := 2])"
  "listenersRef (cleanup s) = listenersRef s"
  "trace (cleanup s) = trace s"
  "state (cleanup s) = state s"
  "destroyedRef (cleanup s) = destroyedRef s"
  "retryRef (cleanup s) = retryRef s"
  by (simp_all add: cleanup_def Let_def clearTimeout_def on_source_fields fold_remove_fields
      close_ready split: option.splits)

lemma cleanup_dormant:
  assumes "life_ok s"
  shows "dormant (cleanup s)"
proof -
  have t: "timers (cleanup s) = []"
  proof (cases "timerRef s")
    case None
    then have "timers s = []" using assms by (cases "timers s") (auto simp: life_ok_def)
    then show ?thesis using None by (simp add: cleanup_fields)
  next
    case (Some t)
    have "\<forall>(i, d) \<in> set (timers s). i = t" using assms Some by (auto simp: life_ok_def)
    then have "filter (\<lambda>(i, d). i \<noteq> t) (timers s) = []"
      by (auto simp: filter_empty_conv)
    then show ?thesis using Some by (simp add: cleanup_fields)
  qed
  have r: "\<forall>r \<in> set (ready (cleanup s)). r = 2"
  proof (cases "eventSourceRef s")
    case None
    then have "\<forall>h < length (ready s). ready s ! h = 2" using assms by (simp add: life_ok_def)
    then show ?thesis using None by (auto simp: cleanup_fields in_set_conv_nth)
  next
    case (Some h)
    have "\<forall>i < length (ready s). i \<noteq> h \<longrightarrow> ready s ! i = 2"
      using assms Some by (auto simp: life_ok_def)
    then have "\<forall>i < length (ready s). (ready s)[h := 2] ! i = 2"
      by (intro allI impI) (case_tac "i = h", auto)
    then show ?thesis using Some by (auto simp: cleanup_fields in_set_conv_nth)
  qed
  show ?thesis using t r by (simp add: dormant_def cleanup_fields)
qed

lemma life_ok_destroyed: "life_ok (s\<lparr>destroyedRef := b\<rparr>) = life_ok s"
  by (simp add: life_ok_def)

lemma disconnect_dormant: "life_ok s \<Longrightarrow> dormant (disconnect s)"
  using cleanup_dormant [of "s\<lparr>destroyedRef := True\<rparr>"]
  by (simp add: disconnect_def Let_def dormant_def life_ok_destroyed)

lemma connect_inv:
  assumes "att_ok s" "life_ok s" "sync_ok s"
  shows "att_ok (connect s) \<and> life_ok (connect s) \<and> sync_ok (connect s)"
proof (cases "case eventSourceRef s of None \<Rightarrow> False | Some h \<Rightarrow> source_state s h = 1")
  case True
  then have "connect s = s" by (simp add: connect_def)
  then show ?thesis using assms by simp
next
  case False
  let ?c = "cleanup (s\<lparr>destroyedRef := False\<rparr>)"
  let ?n = "?c\<lparr>sources := sources ?c @ [\<lparr>es_readyState = 0, es_listeners = []\<rparr>],
               eventSourceRef := Some (length (sources ?c))\<rparr>"
  have e: "connect s = ?n" using False by (simp add: connect_def Let_def)
  have dm: "dormant ?c" using assms(2) by (intro cleanup_dormant) (simp add: life_ok_destroyed)
  have rn: "ready ?n = ready ?c @ [0]" by (simp add: ready_def)
  have a: "att_ok ?n" using dm by (simp add: att_ok_def dormant_def)
  have l: "life_ok ?n"
    unfolding life_ok_def rn using dm
    by (auto simp: dormant_def ready_def nth_append)
  have sy: "sync_ok ?n"
    by (simp add: sync_ok_def source_state_def)
  show ?thesis unfolding e using a l sy by blast
qed

lemma clearTimeout_inv:
  assumes "att_ok s" "life_ok s" "sync_ok s"
  shows "att_ok (clearTimeout t s) \<and> life_ok (clearTimeout t s) \<and> sync_ok (clearTimeout t s)"
proof -
  have "timers s = [] \<Longrightarrow> timers (clearTimeout t s) = []" by (simp add: clearTimeout_def)
  then have "life_ok (clearTimeout t s)"
    using assms(2) unfolding life_ok_def by (auto simp: clearTimeout_def)
  moreover have "att_ok (clearTimeout t s)" using assms(1) by (simp add: att_ok_def clearTimeout_def named_def)
  moreover have "sync_ok (clearTimeout t s)"
    using assms(3) by (simp add: sync_ok_def clearTimeout_def named_def source_state_def)
  ultimately show ?thesis by blast
qed

subsection \<open>The callbacks\<close>

definition hook_inv :: "hook \<Rightarrow> bool" where
  "hook_inv s \<longleftrightarrow> att_ok s \<and> life_ok s \<and> sync_ok s"

lemma onmessage_fields:
  "eventSourceRef (onmessage cfg ev s) = eventSourceRef s"
  "sources (onmessage cfg ev s) = sources s"
  "timerRef (onmessage cfg ev s) = timerRef s"
  "timers (onmessage cfg ev s) = timers s"
  "listenersRef (onmessage cfg ev s) = listenersRef s"
  "dispatchersRef (onmessage cfg ev s) = dispatchersRef s"
  by (simp_all add: onmessage_def Let_def emit_fields)

lemma dispatch_fields:
  "eventSourceRef (dispatch cfg n ev s) = eventSourceRef s"
  "sources (dispatch cfg n ev s) = sources s"
  "timerRef (dispatch cfg n ev s) = timerRef s"
  "timers (dispatch cfg n ev s) = timers s"
  "listenersRef (dispatch cfg n ev s) = listenersRef s"
  "dispatchersRef (dispatch cfg n ev s) = dispatchersRef s"
  by (simp_all add: dispatch_def Let_def emit_fields split: option.splits)

lemma dispatch_fold_fields:
  "eventSourceRef (fold (\<lambda>l s'. if l = n then dispatch cfg n ev s' else s') ls s) = eventSourceRef s
   \<and> sources (fold (\<lambda>l s'. if l = n then dispatch cfg n ev s' else s') ls s) = sources s
   \<and> timerRef (fold (\<lambda>l s'. if l = n then dispatch cfg n ev s' else s') ls s) = timerRef s
   \<and> timers (fold (\<lambda>l s'. if l = n then dispatch cfg n ev s' else s') ls s) = timers s
   \<and> listenersRef (fold (\<lambda>l s'. if l = n then dispatch cfg n ev s' else s') ls s) = listenersRef s
   \<and> dispatchersRef (fold (\<lambda>l s'. if l = n then dispatch cfg n ev s' else s') ls s) = dispatchersRef s"
  by (induction ls arbitrary: s) (simp_all add: dispatch_fields)

lemma hook_inv_cong:
  assumes "hook_inv s" "eventSourceRef s' = eventSourceRef s" "sources s' = sources s"
    "timerRef s' = timerRef s" "timers s' = timers s" "listenersRef s' = listenersRef s"
    "dispatchersRef s' = dispatchersRef s"
  shows "hook_inv s'"
proof -
  have r: "ready s' = ready s" using assms(3) by (simp add: ready_def)
  show ?thesis
    using assms att_ok_cong [of s s'] life_ok_cong [of s s'] sync_ok_cong [of s s'] r
    by (simp add: hook_inv_def)
qed

lemma live_is_current:
  assumes "life_ok s" "source_state s h \<noteq> 2"
  shows "eventSourceRef s = Some h" and "timers s = []" and "h < length (sources s)"
proof -
  have hl: "h < length (ready s)" and hr: "ready s ! h \<noteq> 2"
    using assms(2) by (auto simp: source_state_ready split: if_splits)
  show "eventSourceRef s = Some h" using assms(1) hl hr by (auto simp: life_ok_def)
  have "ready s ! h \<in> set (ready s)" using hl by simp
  then show "timers s = []" using assms(1) hr unfolding life_ok_def by blast
  show "h < length (sources s)" using hl by (simp add: ready_def)
qed

lemma set_ready_state:
  assumes "h < length (sources s)"
  shows "ready (on_source h (\<lambda>e. e\<lparr>es_readyState := v\<rparr>) s) = (ready s)[h := v]"
    and "es_listeners (sources (on_source h (\<lambda>e. e\<lparr>es_readyState := v\<rparr>) s) ! h')
         = es_listeners (sources s ! h')"
  using assms
  by (auto simp: on_source_def ready_def map_update nth_list_update)

lemma att_ok_set_ready:
  "att_ok s \<Longrightarrow> att_ok (on_source h (\<lambda>e. e\<lparr>es_readyState := v\<rparr>) s)"
  by (auto simp: att_ok_def on_source_def named_def nth_list_update)

lemma onopen_inv:
  assumes "hook_inv s" "source_state s h = 0"
  shows "hook_inv (onopen cfg (on_source h (\<lambda>e. e\<lparr>es_readyState := 1\<rparr>) s))"
proof -
  let ?s1 = "on_source h (\<lambda>e. e\<lparr>es_readyState := 1\<rparr>) s"
  have a: "att_ok s" and l: "life_ok s" using assms(1) by (simp_all add: hook_inv_def)
  have ne: "source_state s h \<noteq> 2" using assms(2) by simp
  have cur: "eventSourceRef s = Some h" "timers s = []" "h < length (sources s)"
    using live_is_current [OF l ne] by simp_all
  let ?s3 = "emit cfg ''open'' []
      (?s1\<lparr>retryRef := 0,
            state := (state (?s1\<lparr>retryRef := 0\<rparr>))\<lparr>connected := True, readyState := 1, error := None\<rparr>\<rparr>)"
  have e: "onopen cfg ?s1 = attachAllNamed ?s3" by (simp add: onopen_def Let_def)
  have a1: "att_ok ?s1" using a by (rule att_ok_set_ready)
  have a3: "att_ok ?s3"
    by (rule att_ok_cong [OF a1]) (simp_all add: emit_fields)
  have f3: "eventSourceRef ?s3 = Some h" "timers ?s3 = []" "timerRef ?s3 = timerRef s"
      "ready ?s3 = (ready s)[h := 1]" "listenersRef ?s3 = listenersRef s"
    using cur set_ready_state(1) [OF cur(3), of 1]
    by (simp_all add: emit_fields on_source_fields ready_def)
  note at = attachAllNamed_inv [OF a3]
  have d: "set (dispatchersRef (attachAllNamed ?s3)) = set (named ?s3)"
    using at(2) a3 f3(1) by (auto simp: att_ok_def)
  have n: "named (attachAllNamed ?s3) = named ?s3"
    by (rule named_cong) (simp add: attachAllNamed_keeps)
  have sy: "sync_ok (attachAllNamed ?s3)"
    unfolding sync_ok_def n using d by simp
  have lf: "life_ok (attachAllNamed ?s3)"
    unfolding life_ok_def at(3,4,5,6) f3
    using l cur by (auto simp: life_ok_def nth_list_update)
  show ?thesis unfolding e hook_inv_def using at(1) lf sy by blast
qed

lemma scheduleReconnect_fields:
  "eventSourceRef (scheduleReconnect cfg s) = eventSourceRef s"
  "sources (scheduleReconnect cfg s) = sources s"
  "listenersRef (scheduleReconnect cfg s) = listenersRef s"
  "dispatchersRef (scheduleReconnect cfg s) = dispatchersRef s"
  by (simp_all add: scheduleReconnect_def Let_def)

lemma scheduleReconnect_life:
  assumes "timers s = []" "\<forall>r \<in> set (ready s). r = 2"
  shows "life_ok (scheduleReconnect cfg s)"
  using assms by (auto simp: life_ok_def scheduleReconnect_def Let_def ready_def)

lemma onerror_inv:
  assumes "hook_inv s" "source_state s h \<noteq> 2"
  shows "hook_inv (onerror cfg h e (on_source h (\<lambda>x. x\<lparr>es_readyState := (if fatal then 2 else 0)\<rparr>) s))"
proof -
  let ?v = "if fatal then 2 else 0 :: nat"
  let ?s1 = "on_source h (\<lambda>x. x\<lparr>es_readyState := ?v\<rparr>) s"
  have a: "att_ok s" and l: "life_ok s" using assms(1) by (simp_all add: hook_inv_def)
  have cur: "eventSourceRef s = Some h" "timers s = []" "h < length (sources s)"
    using live_is_current [OF l assms(2)] by simp_all
  let ?s2 = "emit cfg ''error'' [AErrorEvent e]
      (?s1\<lparr>state := (state ?s1)\<lparr>connected := False, readyState := source_state ?s1 h,
                                   error := Some e\<rparr>\<rparr>)"
  have e: "onerror cfg h e ?s1 = (if source_state ?s2 h = 2 then scheduleReconnect cfg ?s2 else ?s2)"
    by (simp add: onerror_def Let_def)
  have a1: "att_ok ?s1" using a by (rule att_ok_set_ready)
  have a2: "att_ok ?s2"
    by (rule att_ok_cong [OF a1]) (simp_all add: emit_fields)
  have f2: "eventSourceRef ?s2 = Some h" "timers ?s2 = []" "timerRef ?s2 = timerRef s"
      "ready ?s2 = (ready s)[h := ?v]"
    using cur set_ready_state(1) [OF cur(3), of ?v]
    by (simp_all add: emit_fields on_source_fields ready_def)
  have st: "source_state ?s2 h = ?v"
  proof -
    have hl: "h < length (ready s)" using cur(3) by (simp add: ready_def)
    have "source_state ?s2 h = (if h < length (ready ?s2) then ready ?s2 ! h else 2)"
      by (rule source_state_ready)
    also have "\<dots> = ?v" unfolding f2(4) using hl by simp
    finally show ?thesis .
  qed
  have others: "\<forall>i < length (ready s). i \<noteq> h \<longrightarrow> ready s ! i = 2"
    using l cur(1) by (auto simp: life_ok_def)
  have l2: "life_ok ?s2"
    unfolding life_ok_def f2 using others by (auto simp: nth_list_update)
  have sy2: "sync_ok ?s2"
    unfolding sync_ok_def f2 using st by auto
  show ?thesis
  proof (cases fatal)
    case False
    then have "onerror cfg h e ?s1 = ?s2" unfolding e st by simp
    then show ?thesis using a2 l2 sy2 by (simp add: hook_inv_def)
  next
    case True
    then have e': "onerror cfg h e ?s1 = scheduleReconnect cfg ?s2" unfolding e st by simp
    have allc: "\<forall>r \<in> set (ready ?s2). r = 2"
    proof -
      have "\<forall>i < length (ready s). (ready s)[h := 2] ! i = 2"
        using others by (intro allI impI) (case_tac "i = h", auto)
      then show ?thesis unfolding f2 using True by (auto simp: in_set_conv_nth)
    qed
    have l3: "life_ok (scheduleReconnect cfg ?s2)"
      using f2(2) allc by (rule scheduleReconnect_life)
    have a3: "att_ok (scheduleReconnect cfg ?s2)"
      by (rule att_ok_cong [OF a2]) (simp_all add: scheduleReconnect_fields)
    have r3: "ready (scheduleReconnect cfg ?s2) = ready ?s2"
      by (simp add: ready_def scheduleReconnect_fields)
    have "source_state (scheduleReconnect cfg ?s2) h = 2"
      using st True source_state_cong [OF r3] by simp
    then have sy3: "sync_ok (scheduleReconnect cfg ?s2)"
      using f2(1) by (auto simp: sync_ok_def scheduleReconnect_fields)
    show ?thesis unfolding e' hook_inv_def using a3 l3 sy3 by blast
  qed
qed

subsection \<open>Every step keeps the invariants\<close>

lemma addListener_keeps_inv:
  assumes "hook_inv s"
  shows "hook_inv (addListener name fn s)"
proof -
  have a: "att_ok s" and l: "life_ok s" and sy: "sync_ok s" using assms by (simp_all add: hook_inv_def)
  note f = addListener_inv [OF a, of name fn]
  have l': "life_ok (addListener name fn s)"
    by (rule life_ok_cong [OF l]) (simp_all add: f)
  have sy': "sync_ok (addListener name fn s)"
    unfolding sync_ok_def f(4) source_state_cong [OF f(5)] f(2) f(3)
    using sy by (auto simp: sync_ok_def)
  show ?thesis using f(1) l' sy' by (simp add: hook_inv_def)
qed

lemma unsubscribe_keeps_inv:
  assumes "hook_inv s"
  shows "hook_inv (unsubscribe name fn s)"
proof -
  have a: "att_ok s" and l: "life_ok s" and sy: "sync_ok s" using assms by (simp_all add: hook_inv_def)
  note f = unsubscribe_inv [OF a, of name fn]
  have l': "life_ok (unsubscribe name fn s)"
    by (rule life_ok_cong [OF l]) (simp_all add: f)
  have sy': "sync_ok (unsubscribe name fn s)"
    unfolding sync_ok_def f(5) source_state_cong [OF f(6)] f(4)
    using sy f(3) by (auto simp: sync_ok_def)
  show ?thesis using f(1) l' sy' by (simp add: hook_inv_def)
qed

lemma hook_inv_step:
  assumes "hook_inv s" "step cfg e s = Some s'"
  shows "hook_inv s'"
proof (cases e)
  case Connect
  then show ?thesis using assms connect_inv [of s] by (auto simp: hook_inv_def)
next
  case Disconnect
  then have "s' = disconnect s" using assms(2) by simp
  moreover have "dormant (disconnect s)" using assms(1) by (intro disconnect_dormant) (simp add: hook_inv_def)
  ultimately show ?thesis using dormant_inv by (simp add: hook_inv_def)
next
  case (Subscribe name fn)
  then show ?thesis using assms addListener_keeps_inv by auto
next
  case (Unsubscribe name fn)
  then show ?thesis using assms unsubscribe_keeps_inv by auto
next
  case (TimerFire t)
  then have s': "s' = connect (clearTimeout t s)" using assms(2) by (simp split: if_splits)
  have "hook_inv (clearTimeout t s)" using assms(1) clearTimeout_inv [of s t] by (simp add: hook_inv_def)
  then show ?thesis unfolding s' using connect_inv [of "clearTimeout t s"] by (simp add: hook_inv_def)
next
  case (EsOpen h)
  then have "source_state s h = 0"
    and "s' = onopen cfg (on_source h (\<lambda>e. e\<lparr>es_readyState := 1\<rparr>) s)"
    using assms(2) by (simp_all split: if_splits)
  then show ?thesis using onopen_inv [OF assms(1)] by simp
next
  case (EsError h x fatal)
  then have "source_state s h \<noteq> 2"
    and "s' = onerror cfg h x (on_source h (\<lambda>e. e\<lparr>es_readyState := (if fatal then 2 else 0)\<rparr>) s)"
    using assms(2) by (simp_all split: if_splits)
  then show ?thesis using onerror_inv [OF assms(1)] by simp
next
  case (EsMessage h ev)
  then have "s' = onmessage cfg ev s" using assms(2) by (simp split: if_splits)
  then show ?thesis using hook_inv_cong [OF assms(1), of s'] by (simp add: onmessage_fields)
next
  case (EsNamed h n ev)
  then have "s' = fold (\<lambda>l s'. if l = n then dispatch cfg n ev s' else s')
                    (es_listeners (sources s ! h)) s"
    using assms(2) by (simp split: if_splits)
  then show ?thesis using hook_inv_cong [OF assms(1), of s'] by (simp add: dispatch_fold_fields)
qed

lemma hook_inv_initial: "hook_inv (initial cfg lid)"
  by (simp add: hook_inv_def att_ok_def life_ok_def sync_ok_def initial_def ready_def)

lemma hook_inv_run: "hook_inv s \<Longrightarrow> run cfg evs s = Some s' \<Longrightarrow> hook_inv s'"
proof (induction evs arbitrary: s)
  case Nil
  then show ?case by simp
next
  case (Cons e evs)
  then obtain s1 where s1: "step cfg e s = Some s1" "run cfg evs s1 = Some s'"
    by (auto split: option.splits)
  show ?case using Cons.IH [OF hook_inv_step [OF Cons.prems(1) s1(1)] s1(2)] .
qed

subsection \<open>The listener registry\<close>

definition reg_ok :: "hook \<Rightarrow> bool" where
  "reg_ok s \<longleftrightarrow>
     distinct (map fst (listenersRef s)) \<and> (\<forall>(n, hs) \<in> set (listenersRef s). hs \<noteq> [])"

lemma set_update_subset: "set (AList.update k v al) \<subseteq> insert (k, v) (set al)"
  by (induction al) auto

lemma reg_ok_addListener: "reg_ok s \<Longrightarrow> reg_ok (addListener name fn s)"
proof -
  assume a: "reg_ok s"
  let ?set0 = "case map_of (listenersRef s) name of None \<Rightarrow> [] | Some x \<Rightarrow> x"
  have l: "listenersRef (addListener name fn s)
           = AList.update name (set_add fn ?set0) (listenersRef s)"
    by (simp add: addListener_def Let_def attachNamedIfNeeded_keeps)
  have "set_add x xs \<noteq> []" for x :: nat and xs by (auto simp: set_add_def)
  then have "set_add fn ?set0 \<noteq> []" by blast
  then show ?thesis
    unfolding reg_ok_def l using a set_update_subset [of name "set_add fn ?set0" "listenersRef s"]
    by (auto simp: reg_ok_def distinct_update)
qed

lemma listenersRef_unsubscribe:
  "listenersRef (unsubscribe name fn s) =
     (case map_of (listenersRef s) name of
        None \<Rightarrow> listenersRef s
      | Some cur \<Rightarrow> if removeAll fn cur \<noteq> []
                    then AList.update name (removeAll fn cur) (listenersRef s)
                    else AList.delete name (listenersRef s))"
  by (simp add: unsubscribe_def Let_def on_source_fields split: option.splits)

lemma reg_ok_unsubscribe: "reg_ok s \<Longrightarrow> reg_ok (unsubscribe name fn s)"
proof -
  assume a: "reg_ok s"
  show ?thesis
  proof (cases "map_of (listenersRef s) name")
    case None
    then show ?thesis using a by (simp add: reg_ok_def listenersRef_unsubscribe)
  next
    case (Some cur)
    show ?thesis
    proof (cases "removeAll fn cur = []")
      case True
      have d: "distinct (map fst (AList.delete name (listenersRef s)))"
        using a by (simp add: reg_ok_def distinct_delete)
      have sub: "set (AList.delete name (listenersRef s)) \<subseteq> set (listenersRef s)"
        by (auto simp: AList.delete_eq)
      have "listenersRef (unsubscribe name fn s) = AList.delete name (listenersRef s)"
        using Some True by (simp add: listenersRef_unsubscribe)
      then show ?thesis
        unfolding reg_ok_def using a d sub by (auto simp: reg_ok_def)
    next
      case False
      then show ?thesis
        using a Some set_update_subset [of name "removeAll fn cur" "listenersRef s"]
        by (auto simp: reg_ok_def listenersRef_unsubscribe distinct_update)
    qed
  qed
qed

lemma reg_ok_cong: "reg_ok s \<Longrightarrow> listenersRef s' = listenersRef s \<Longrightarrow> reg_ok s'"
  by (simp add: reg_ok_def)

lemma connect_listeners: "listenersRef (connect s) = listenersRef s"
  by (simp add: connect_def Let_def cleanup_fields)

lemma disconnect_listeners: "listenersRef (disconnect s) = listenersRef s"
  by (simp add: disconnect_def Let_def cleanup_fields)

lemma onopen_listeners: "listenersRef (onopen cfg s) = listenersRef s"
  by (simp add: onopen_def Let_def attachAllNamed_keeps emit_fields)

lemma onerror_listeners: "listenersRef (onerror cfg h e s) = listenersRef s"
  by (simp add: onerror_def Let_def scheduleReconnect_fields emit_fields)

lemma reg_ok_step:
  assumes "reg_ok s" "step cfg e s = Some s'"
  shows "reg_ok s'"
proof (cases e)
  case (Subscribe name fn)
  then show ?thesis using assms reg_ok_addListener by auto
next
  case (Unsubscribe name fn)
  then show ?thesis using assms reg_ok_unsubscribe by auto
qed (use assms in \<open>auto simp: connect_listeners disconnect_listeners onopen_listeners
      onerror_listeners onmessage_fields dispatch_fold_fields clearTimeout_def on_source_fields
      intro!: reg_ok_cong [OF assms(1)] split: if_splits\<close>)

lemma reg_ok_run: "reg_ok s \<Longrightarrow> run cfg evs s = Some s' \<Longrightarrow> reg_ok s'"
proof (induction evs arbitrary: s)
  case Nil
  then show ?case by simp
next
  case (Cons e evs)
  then obtain s1 where s1: "step cfg e s = Some s1" "run cfg evs s1 = Some s'"
    by (auto split: option.splits)
  show ?case using Cons.IH [OF reg_ok_step [OF Cons.prems(1) s1(1)] s1(2)] .
qed

lemma reg_ok_initial: "reg_ok (initial cfg lid)"
  by (simp add: reg_ok_def initial_def)

lemma named_are_handled:
  assumes "reg_ok s"
  shows "set (named s) = {n. \<not> isReservedEvent n \<and> handlers_of s n \<noteq> []}"
proof -
  have "(n \<in> fst ` set (listenersRef s)) = (handlers_of s n \<noteq> [])" for n
  proof (cases "map_of (listenersRef s) n")
    case None
    then have "n \<notin> fst ` set (listenersRef s)" by (simp add: map_of_eq_None_iff)
    then show ?thesis using None by (simp add: handlers_of_def)
  next
    case (Some hs)
    then have "(n, hs) \<in> set (listenersRef s)" by (rule map_of_SomeD)
    then have "hs \<noteq> []" "n \<in> fst ` set (listenersRef s)" using assms by (force simp: reg_ok_def)+
    then show ?thesis using Some by (simp add: handlers_of_def)
  qed
  then show ?thesis unfolding set_named by auto
qed

section \<open>Attached dispatchers\<close>

text \<open>
  C2, as stated, fails: while the hook holds no \<open>EventSource\<close> a subscription attaches
  nothing, the attachment waits for the next \<open>open\<close>. After one \<open>subscribe\<close> on a fresh
  hook the name \<open>x\<close> has a handler and no dispatcher.
\<close>

theorem deferred_attachment_counterexample:
  "(let cfg = default_config ''/api/sse'' quiet;
        s = addListener ''x'' 1 (initial cfg None)
    in run cfg [Subscribe ''x'' 1] (initial cfg None) = Some s
       \<and> \<not> isReservedEvent ''x'' \<and> handlers_of s ''x'' = [1]
       \<and> dispatchersRef s = []
       \<and> set (dispatchersRef s) \<noteq> {n. \<not> isReservedEvent n \<and> handlers_of s n \<noteq> []})"
proof -
  let ?cfg = "default_config ''/api/sse'' quiet"
  let ?s = "addListener ''x'' 1 (initial ?cfg None)"
  have a: "\<not> isReservedEvent ''x''" by (simp add: isReservedEvent_def)
  have h0: "handlers_of (initial ?cfg None) ''x'' = []"
    by (simp add: handlers_of_def initial_def)
  have b: "handlers_of ?s ''x'' = [1]"
    by (simp add: handlers_of_addListener h0 set_add_def)
  have c: "dispatchersRef ?s = []"
    by (simp add: addListener_def Let_def attachNamedIfNeeded_def initial_def)
  have "''x'' \<in> {n. \<not> isReservedEvent n \<and> handlers_of ?s n \<noteq> []}" using a b by simp
  then have d: "set (dispatchersRef ?s) \<noteq> {n. \<not> isReservedEvent n \<and> handlers_of ?s n \<noteq> []}"
    unfolding c by auto
  show ?thesis unfolding Let_def using a b c d by simp
qed

text \<open>
  C2 (as amended). In every state the hook reaches, by any sequence of subscribe and
  unsubscribe calls interleaved with connects, disconnects and what the platform does: the
  names with an attached dispatcher are pairwise different and all of them are non-reserved
  names with at least one registered handler; the current \<open>EventSource\<close> carries exactly
  these listeners; they are all such names whenever the current \<open>EventSource\<close> is open;
  without an \<open>EventSource\<close> none is attached. Removing the last handler of a name
  detaches the name's dispatcher.
\<close>

theorem attached_dispatchers:
  assumes "run cfg evs (initial cfg lid) = Some s"
  shows "distinct (dispatchersRef s)
       \<and> set (dispatchersRef s) \<subseteq> {n. \<not> isReservedEvent n \<and> handlers_of s n \<noteq> []}
       \<and> (eventSourceRef s = None \<longrightarrow> dispatchersRef s = [])
       \<and> (\<forall>h. eventSourceRef s = Some h \<longrightarrow>
              es_listeners (sources s ! h) = dispatchersRef s
              \<and> (source_state s h = 1 \<longrightarrow>
                   set (dispatchersRef s) = {n. \<not> isReservedEvent n \<and> handlers_of s n \<noteq> []}))
       \<and> (handlers_of s name = [fn] \<longrightarrow>
             name \<notin> set (dispatchersRef (unsubscribe name fn s))
             \<and> (\<forall>h. eventSourceRef s = Some h \<longrightarrow>
                    name \<notin> set (es_listeners (sources (unsubscribe name fn s) ! h))))"
proof -
  have i: "hook_inv s" using hook_inv_run [OF hook_inv_initial assms] .
  have r: "reg_ok s" using reg_ok_run [OF reg_ok_initial assms] .
  note n = named_are_handled [OF r]
  have a: "att_ok s" and sy: "sync_ok s" using i by (simp_all add: hook_inv_def)
  have p1: "distinct (dispatchersRef s)" using a by (simp add: att_ok_def)
  have p2: "set (dispatchersRef s) \<subseteq> {n. \<not> isReservedEvent n \<and> handlers_of s n \<noteq> []}"
    using a unfolding n [symmetric] by (simp add: att_ok_def)
  have p3: "eventSourceRef s = None \<longrightarrow> dispatchersRef s = []" using a by (simp add: att_ok_def)
  have p4: "\<forall>h. eventSourceRef s = Some h \<longrightarrow>
              es_listeners (sources s ! h) = dispatchersRef s
              \<and> (source_state s h = 1 \<longrightarrow>
                   set (dispatchersRef s) = {n. \<not> isReservedEvent n \<and> handlers_of s n \<noteq> []})"
    using a sy unfolding n [symmetric] by (auto simp: att_ok_def sync_ok_def)
  have p5: "handlers_of s name = [fn] \<longrightarrow>
             name \<notin> set (dispatchersRef (unsubscribe name fn s))
             \<and> (\<forall>h. eventSourceRef s = Some h \<longrightarrow>
                    name \<notin> set (es_listeners (sources (unsubscribe name fn s) ! h)))"
  proof
    assume h: "handlers_of s name = [fn]"
    let ?u = "unsubscribe name fn s"
    note f = unsubscribe_inv [OF a, of name fn]
    have "map_of (listenersRef s) name = Some [fn]"
      using h by (cases "map_of (listenersRef s) name") (simp_all add: handlers_of_def)
    then have "listenersRef ?u = AList.delete name (listenersRef s)"
      by (simp add: listenersRef_unsubscribe)
    then have "name \<notin> fst ` set (listenersRef ?u)" by (simp add: delete_notin_dom)
    then have "name \<notin> set (named ?u)" by (simp add: set_named)
    then have d: "name \<notin> set (dispatchersRef ?u)" using f(4) by simp
    have "\<forall>h. eventSourceRef s = Some h \<longrightarrow> es_listeners (sources ?u ! h) = dispatchersRef ?u"
      using f(1) f(5) by (simp add: att_ok_def)
    then show "name \<notin> set (dispatchersRef ?u)
             \<and> (\<forall>h. eventSourceRef s = Some h \<longrightarrow> name \<notin> set (es_listeners (sources ?u ! h)))"
      using d by simp
  qed
  show ?thesis using p1 p2 p3 p4 p5 by blast
qed

lemmas hook_eval2 =
  hook_eval addListener_def attachNamedIfNeeded_def attachAllNamed_def isReservedEvent_def
  set_add_def unsubscribe_def onopen_def addEventListener_def removeEventListener_def
  AList.delete_eq

theorem attached_dispatchers_witness:
  "(\<exists>s. run (default_config ''/api/sse'' quiet)
          [Subscribe ''x'' 1, Connect, Subscribe ''message'' 2, EsOpen 0, Subscribe ''y'' 3,
           Unsubscribe ''x'' 1]
          (initial (default_config ''/api/sse'' quiet) None) = Some s
        \<and> eventSourceRef s = Some 0 \<and> source_state s 0 = 1
        \<and> map fst (listenersRef s) = [''message'', ''y'']
        \<and> dispatchersRef s = [''y'']
        \<and> es_listeners (sources s ! 0) = dispatchersRef s
        \<and> distinct (dispatchersRef s))"
proof -
  let ?cfg = "default_config ''/api/sse'' quiet"
  let ?evs = "[Subscribe ''x'' 1, Connect, Subscribe ''message'' 2, EsOpen 0, Subscribe ''y'' 3,
           Unsubscribe ''x'' 1]"
  obtain s where s: "run ?cfg ?evs (initial ?cfg None) = Some s"
      and v: "eventSourceRef s = Some 0" "source_state s 0 = 1"
        "map fst (listenersRef s) = [''message'', ''y'']" "dispatchersRef s = [''y'']"
    by (simp add: hook_eval2)
  note t = attached_dispatchers [OF s, of "''x''" 1]
  have a: "es_listeners (sources s ! 0) = dispatchersRef s" "distinct (dispatchersRef s)"
    using t v(1) by blast+
  show ?thesis by (intro exI [of _ s] conjI s v a)
qed

section \<open>After \<open>disconnect\<close>\<close>

fun platform_event :: "event \<Rightarrow> bool" where
  "platform_event (TimerFire t) = True"
| "platform_event (EsOpen h) = True"
| "platform_event (EsError h e fatal) = True"
| "platform_event (EsMessage h ev) = True"
| "platform_event (EsNamed h n ev) = True"
| "platform_event other = False"

lemma dormant_closed: "dormant s \<Longrightarrow> source_state s h = 2"
  by (auto simp: dormant_def source_state_ready)

lemma dormant_blocks:
  assumes "dormant s" "platform_event e"
  shows "step cfg e s = None"
  using assms dormant_closed [OF assms(1)]
  by (cases e) (simp_all add: dormant_def)

lemma dormant_life: "dormant s \<Longrightarrow> life_ok s"
  using dormant_inv by blast

lemma dormant_step:
  assumes "dormant s" "step cfg e s = Some s'" "e \<noteq> Connect"
  shows "\<not> platform_event e \<and> dormant s' \<and> trace s' = trace s"
proof (cases "platform_event e")
  case True
  then show ?thesis using dormant_blocks [OF assms(1) True, of cfg] assms(2) by simp
next
  case False
  then consider (d) "e = Disconnect" | (s) name fn where "e = Subscribe name fn"
    | (u) name fn where "e = Unsubscribe name fn"
    using assms(3) by (cases e) auto
  then show ?thesis
  proof cases
    case d
    then have s': "s' = disconnect s" using assms(2) by simp
    have "dormant s'" unfolding s' using dormant_life [OF assms(1)] by (rule disconnect_dormant)
    moreover have "trace s' = trace s" unfolding s' by (simp add: disconnect_def Let_def cleanup_fields)
    ultimately show ?thesis using False by simp
  next
    case s
    then have s': "s' = addListener name fn s" using assms(2) by simp
    have a: "att_ok s" using dormant_inv [OF assms(1)] by simp
    note f = addListener_inv [OF a, of name fn]
    have "dispatchersRef s' = []" using f(2) assms(1) unfolding s' by (simp add: dormant_def)
    then have "dormant s'" using assms(1) f(4,5,6) unfolding s' by (simp add: dormant_def)
    then show ?thesis using False f(8) s' by simp
  next
    case u
    then have s': "s' = unsubscribe name fn s" using assms(2) by simp
    have a: "att_ok s" using dormant_inv [OF assms(1)] by simp
    note f = unsubscribe_inv [OF a, of name fn]
    have "dispatchersRef s' = []" using f(4) assms(1) unfolding s' by (simp add: dormant_def)
    then have "dormant s'" using assms(1) f(5,6,7) unfolding s' by (simp add: dormant_def)
    then show ?thesis using False f(9) s' by simp
  qed
qed

lemma dormant_run:
  "dormant s \<Longrightarrow> run cfg evs s = Some s' \<Longrightarrow> Connect \<notin> set evs \<Longrightarrow>
   (\<forall>e \<in> set evs. \<not> platform_event e) \<and> dormant s' \<and> trace s' = trace s"
proof (induction evs arbitrary: s)
  case Nil
  then show ?case by simp
next
  case (Cons e evs)
  then obtain s1 where s1: "step cfg e s = Some s1" "run cfg evs s1 = Some s'"
    by (auto split: option.splits)
  have ne: "e \<noteq> Connect" "Connect \<notin> set evs" using Cons.prems(3) by auto
  note st = dormant_step [OF Cons.prems(1) s1(1) ne(1)]
  have d1: "dormant s1" using st by simp
  show ?case using Cons.IH [OF d1 s1(2) ne(2)] st by simp
qed

lemma fold_remove1_self: "fold remove1 xs xs = []"
  by (induction xs) simp_all

lemma fold_remove_listeners:
  "h < length (sources s) \<Longrightarrow>
   h < length (sources (fold (\<lambda>name. on_source h (removeEventListener name)) ns s))
   \<and> es_listeners (sources (fold (\<lambda>name. on_source h (removeEventListener name)) ns s) ! h)
     = fold remove1 ns (es_listeners (sources s ! h))"
proof (induction ns arbitrary: s)
  case Nil
  then show ?case by simp
next
  case (Cons n ns)
  let ?s1 = "on_source h (removeEventListener n) s"
  have l: "h < length (sources ?s1)" using Cons.prems by (simp add: on_source_fields)
  have e: "es_listeners (sources ?s1 ! h) = remove1 n (es_listeners (sources s ! h))"
    using Cons.prems by (simp add: on_source_def removeEventListener_def)
  show ?case using Cons.IH [OF l] e by simp
qed

lemma cleanup_detaches:
  assumes "att_ok s" "eventSourceRef s = Some h"
  shows "es_listeners (sources (cleanup s) ! h) = []"
proof -
  have hl: "h < length (sources s)" and el: "es_listeners (sources s ! h) = dispatchersRef s"
    using assms by (simp_all add: att_ok_def)
  let ?s1 = "case timerRef s of None \<Rightarrow> s | Some t \<Rightarrow> (clearTimeout t s)\<lparr>timerRef := None\<rparr>"
  have f1: "eventSourceRef ?s1 = Some h" "sources ?s1 = sources s" "dispatchersRef ?s1 = dispatchersRef s"
    using assms(2) by (simp_all add: clearTimeout_def split: option.splits)
  let ?s2 = "fold (\<lambda>name. on_source h (removeEventListener name)) (dispatchersRef ?s1) ?s1"
  have hl1: "h < length (sources ?s1)" using hl f1(2) by simp
  note fr = fold_remove_listeners [OF hl1, of "dispatchersRef ?s1"]
  have l2: "h < length (sources ?s2)" using fr by simp
  have e2: "es_listeners (sources ?s2 ! h) = []"
    using fr unfolding f1(2,3) el by (simp add: fold_remove1_self)
  have c: "sources (cleanup s) = sources (on_source h es_close (?s2\<lparr>dispatchersRef := []\<rparr>))"
    using f1(1) by (simp add: cleanup_def Let_def fold_remove_fields)
  show ?thesis unfolding c using l2 e2 by (simp add: on_source_def es_close_def)
qed

section \<open>Handlers that call back into the hook\<close>

text \<open>
  A handler is a function of the application. While it runs it can call what the hook
  returns: \<open>connect\<close>, \<open>disconnect\<close>, \<open>subscribe\<close> and the closures that
  \<open>subscribe\<close> returned. A behaviour gives, for a handler and the arguments it is called
  on, the calls it makes, in order, before it returns or throws.
\<close>

datatype hcall =
    CallConnect
  | CallDisconnect
  | CallSubscribe string nat
  | CallUnsubscribe string nat

type_synonym behaviour = "nat \<Rightarrow> arg list \<Rightarrow> hcall list"

fun apply_call :: "hcall \<Rightarrow> hook \<Rightarrow> hook" where
  "apply_call CallConnect s = connect s"
| "apply_call CallDisconnect s = disconnect s"
| "apply_call (CallSubscribe name handler) s = addListener name handler s"
| "apply_call (CallUnsubscribe name handler) s = unsubscribe name handler s"

text \<open>
  The loop of \<open>emit\<close> walks the \<open>Set\<close> object it read from the \<open>Map\<close> before the
  first call. A \<open>Set\<close> keeps its entries in insertion order; deleting one leaves a hole
  that the iterator skips, adding one puts it at the end, where the iterator still arrives.
  The iterator is the number of present entries it has passed: an entry deleted from among
  these moves it one back. The unsubscribe closure that empties the \<open>Set\<close> drops it from
  the \<open>Map\<close>, and a later subscription makes a new \<open>Set\<close> that the running loop does
  not see: from then on the iterator is \<open>None\<close>.
\<close>

fun iter_after :: "string \<Rightarrow> hcall \<Rightarrow> hook \<Rightarrow> nat option \<Rightarrow> nat option" where
  "iter_after name c s None = None"
| "iter_after name (CallUnsubscribe n h) s (Some p) =
     (if n = name \<and> h \<in> set (handlers_of s name)
      then (if removeAll h (handlers_of s name) = [] then None
            else if h \<in> set (take p (handlers_of s name)) then Some (p - 1)
            else Some p)
      else Some p)"
| "iter_after name c s (Some p) = Some p"

definition hcall_step :: "string \<Rightarrow> hcall \<Rightarrow> nat option \<times> hook \<Rightarrow> nat option \<times> hook" where
  "hcall_step name c = (\<lambda>(it, s). (iter_after name c s it, apply_call c s))"

definition invoke_re ::
  "config \<Rightarrow> behaviour \<Rightarrow> string \<Rightarrow> arg list \<Rightarrow> nat \<Rightarrow> nat option \<times> hook \<Rightarrow> nat option \<times> hook" where
  "invoke_re cfg b name args fn = (\<lambda>(it, s).
     (let s1 = s\<lparr>trace := trace s @ [Called fn args]\<rparr>;
          (it2, s2) = fold (hcall_step name) (b fn args) (it, s1)
      in (it2, if throws cfg fn args then s2\<lparr>trace := trace s2 @ [Reported name fn]\<rparr> else s2)))"

text \<open>
  A handler that keeps subscribing new handlers for the name keeps the loop running for
  ever; \<open>emit_from\<close> is \<open>None\<close> when the loop does not end.
\<close>

partial_function (option) emit_from ::
  "config \<Rightarrow> behaviour \<Rightarrow> string \<Rightarrow> arg list \<Rightarrow> nat \<Rightarrow> hook \<Rightarrow> hook option" where
  "emit_from cfg b name args p s =
     (case map_of (listenersRef s) name of
        None \<Rightarrow> Some s
      | Some set0 \<Rightarrow>
          if p < length set0
          then (case invoke_re cfg b name args (set0 ! p) (Some (Suc p), s) of
                  (None, s1) \<Rightarrow> Some s1
                | (Some p1, s1) \<Rightarrow> emit_from cfg b name args p1 s1)
          else Some s)"

definition emit_re :: "config \<Rightarrow> behaviour \<Rightarrow> string \<Rightarrow> arg list \<Rightarrow> hook \<Rightarrow> hook option" where
  "emit_re cfg b name args s = emit_from cfg b name args 0 s"

text \<open>
  The callbacks, with \<open>emit_re\<close> for \<open>emit\<close>. A state update is applied where
  \<open>setState\<close> is called.
\<close>

definition dispatch_re :: "config \<Rightarrow> behaviour \<Rightarrow> string \<Rightarrow> msg_event \<Rightarrow> hook \<Rightarrow> hook option" where
  "dispatch_re cfg b name ev s =
     (case map_of (listenersRef s) name of
        None \<Rightarrow> Some s
      | Some set0 \<Rightarrow>
          if set0 = [] then Some s
          else (let data = parse cfg (me_data ev);
                    s1 = s\<lparr>state := (state s)
                            \<lparr>lastEventId := (if me_lastEventId ev \<noteq> [] then Some (me_lastEventId ev)
                                              else lastEventId (state s)),
                             lastEventName := Some name,
                             lastData := data\<rparr>\<rparr>
                in emit_re cfg b name [AData data, AMessageEvent ev] s1))"

definition onmessage_re :: "config \<Rightarrow> behaviour \<Rightarrow> msg_event \<Rightarrow> hook \<Rightarrow> hook option" where
  "onmessage_re cfg b ev s =
     (let data = parse cfg (me_data ev);
          s1 = s\<lparr>state := (state s)
                  \<lparr>lastEventId := (if me_lastEventId ev \<noteq> [] then Some (me_lastEventId ev)
                                    else lastEventId (state s)),
                   lastEventName := Some ''message'',
                   lastData := data\<rparr>\<rparr>
      in emit_re cfg b ''message'' [AData data, AMessageEvent ev] s1)"

definition onopen_re :: "config \<Rightarrow> behaviour \<Rightarrow> hook \<Rightarrow> hook option" where
  "onopen_re cfg b s =
     (let s1 = s\<lparr>retryRef := 0\<rparr>;
          s2 = s1\<lparr>state := (state s1)\<lparr>connected := True, readyState := 1, error := None\<rparr>\<rparr>
      in case emit_re cfg b ''open'' [] s2 of
           None \<Rightarrow> None
         | Some s3 \<Rightarrow> Some (attachAllNamed s3))"

definition onerror_re :: "config \<Rightarrow> behaviour \<Rightarrow> nat \<Rightarrow> nat \<Rightarrow> hook \<Rightarrow> hook option" where
  "onerror_re cfg b h e s =
     (let s1 = s\<lparr>state := (state s)\<lparr>connected := False, readyState := source_state s h,
                                   error := Some e\<rparr>\<rparr>
      in case emit_re cfg b ''error'' [AErrorEvent e] s1 of
           None \<Rightarrow> None
         | Some s2 \<Rightarrow> Some (if source_state s2 h = 2 then scheduleReconnect cfg s2 else s2))"

text \<open>
  An \<open>EventSource\<close> delivers a named event to the listeners for the name that it held
  when the delivery began and that have not been removed since.
\<close>

fun deliver ::
  "config \<Rightarrow> behaviour \<Rightarrow> nat \<Rightarrow> string \<Rightarrow> msg_event \<Rightarrow> string list \<Rightarrow> hook \<Rightarrow> hook option" where
  "deliver cfg b h name ev [] s = Some s"
| "deliver cfg b h name ev (l # ls) s =
     (if l = name \<and> name \<in> set (es_listeners (sources s ! h))
      then (case dispatch_re cfg b name ev s of
              None \<Rightarrow> None
            | Some s1 \<Rightarrow> deliver cfg b h name ev ls s1)
      else deliver cfg b h name ev ls s)"

text \<open>
  A step is \<open>None\<close> when the platform cannot take it, or when a loop over handlers does
  not end.
\<close>

fun step_re :: "config \<Rightarrow> behaviour \<Rightarrow> event \<Rightarrow> hook \<Rightarrow> hook option" where
  "step_re cfg b Connect s = Some (connect s)"
| "step_re cfg b Disconnect s = Some (disconnect s)"
| "step_re cfg b (Subscribe name handler) s = Some (addListener name handler s)"
| "step_re cfg b (Unsubscribe name handler) s = Some (unsubscribe name handler s)"
| "step_re cfg b (TimerFire t) s =
     (if t \<in> fst ` set (timers s) then Some (connect (clearTimeout t s)) else None)"
| "step_re cfg b (EsOpen h) s =
     (if source_state s h = 0
      then onopen_re cfg b (on_source h (\<lambda>e. e\<lparr>es_readyState := 1\<rparr>) s)
      else None)"
| "step_re cfg b (EsError h e fatal) s =
     (if source_state s h \<noteq> 2
      then onerror_re cfg b h e
             (on_source h (\<lambda>e. e\<lparr>es_readyState := (if fatal then 2 else 0)\<rparr>) s)
      else None)"
| "step_re cfg b (EsMessage h ev) s =
     (if source_state s h = 1 then onmessage_re cfg b ev s else None)"
| "step_re cfg b (EsNamed h name ev) s =
     (if source_state s h = 1 \<and> name \<in> set (es_listeners (sources s ! h))
      then deliver cfg b h name ev (es_listeners (sources s ! h)) s
      else None)"

fun run_re :: "config \<Rightarrow> behaviour \<Rightarrow> event list \<Rightarrow> hook \<Rightarrow> hook option" where
  "run_re cfg b [] s = Some s"
| "run_re cfg b (e # es) s =
     (case step_re cfg b e s of None \<Rightarrow> None | Some s1 \<Rightarrow> run_re cfg b es s1)"

subsection \<open>Handlers that make no calls\<close>

definition no_calls :: behaviour where
  "no_calls fn args = []"

lemma invoke_re_no_calls:
  "invoke_re cfg no_calls name args fn (it, s) = (it, invoke cfg name args fn s)"
  by (simp add: invoke_re_def invoke_def no_calls_def Let_def)

lemma listenersRef_invoke: "listenersRef (invoke cfg name args fn s) = listenersRef s"
  by (simp add: invoke_def Let_def)

lemma emit_from_no_calls:
  "map_of (listenersRef s) name = Some set0 \<Longrightarrow>
   emit_from cfg no_calls name args p s = Some (fold (invoke cfg name args) (drop p set0) s)"
proof (induction "length set0 - p" arbitrary: p s)
  case 0
  then show ?case by (subst emit_from.simps) simp
next
  case (Suc k)
  then have p: "p < length set0" by simp
  have l: "map_of (listenersRef (invoke cfg name args (set0 ! p) s)) name = Some set0"
    using Suc.prems by (simp add: listenersRef_invoke)
  have k: "k = length set0 - Suc p" using Suc.hyps(2) by simp
  have d: "drop p set0 = set0 ! p # drop (Suc p) set0" using p by (simp add: Cons_nth_drop_Suc)
  show ?case
    by (subst emit_from.simps) (simp add: Suc.prems p invoke_re_no_calls Suc.hyps(1) [OF k l] d)
qed

lemma emit_re_no_calls: "emit_re cfg no_calls name args s = Some (emit cfg name args s)"
proof (cases "map_of (listenersRef s) name")
  case None
  then show ?thesis unfolding emit_re_def by (subst emit_from.simps) (simp add: emit_def)
next
  case (Some set0)
  then show ?thesis by (simp add: emit_re_def emit_from_no_calls emit_def)
qed

lemma dispatch_re_no_calls: "dispatch_re cfg no_calls name ev s = Some (dispatch cfg name ev s)"
  by (simp add: dispatch_re_def dispatch_def emit_re_no_calls Let_def split: option.splits)

lemma deliver_no_calls:
  "name \<in> set (es_listeners (sources s ! h)) \<Longrightarrow>
   deliver cfg no_calls h name ev ls s
   = Some (fold (\<lambda>l s'. if l = name then dispatch cfg name ev s' else s') ls s)"
proof (induction ls arbitrary: s)
  case Nil
  then show ?case by simp
next
  case (Cons l ls)
  have "name \<in> set (es_listeners (sources (dispatch cfg name ev s) ! h))"
    using Cons.prems by (simp add: dispatch_fields)
  then show ?case using Cons by (simp add: dispatch_re_no_calls)
qed

lemma step_re_no_calls: "step_re cfg no_calls e s = step cfg e s"
  by (cases e)
    (simp_all add: onopen_re_def onopen_def onerror_re_def onerror_def onmessage_re_def
      onmessage_def emit_re_no_calls deliver_no_calls Let_def)

lemma run_re_no_calls: "run_re cfg no_calls evs s = run cfg evs s"
  by (induction evs arbitrary: s) (simp_all add: step_re_no_calls split: option.splits)

text \<open>
  With handlers that make no calls, \<open>disconnect\<close> silences the hook. From any state it
  reaches, \<open>disconnect\<close> leaves no pending timer (a timer armed before is cancelled), no
  \<open>EventSource\<close> that is not closed, and no listener on the one it tore down. As long as
  \<open>connect\<close> is not called, whatever follows consists of subscribe, unsubscribe and
  disconnect calls only: the platform can fire no timer and deliver no event to a callback,
  and no handler is invoked.
\<close>

lemma disconnect_silences_without_calls:
  assumes "run_re cfg no_calls evs (initial cfg lid) = Some s"
    and "run_re cfg no_calls evs' (disconnect s) = Some s'" and "Connect \<notin> set evs'"
  shows "timers (disconnect s) = []
       \<and> eventSourceRef (disconnect s) = None \<and> dispatchersRef (disconnect s) = []
       \<and> destroyedRef (disconnect s)
       \<and> (\<forall>e \<in> set (sources (disconnect s)). es_readyState e = 2)
       \<and> (\<forall>h. eventSourceRef s = Some h \<longrightarrow> es_listeners (sources (disconnect s) ! h) = [])
       \<and> (\<forall>e \<in> set evs'. \<not> platform_event e)
       \<and> (\<forall>e. platform_event e \<longrightarrow> step_re cfg no_calls e s' = None)
       \<and> timers s' = []
       \<and> trace s' = trace (disconnect s)
       \<and> trace (disconnect s) = trace s"
proof -
  have r1: "run cfg evs (initial cfg lid) = Some s" using assms(1) by (simp add: run_re_no_calls)
  have r2: "run cfg evs' (disconnect s) = Some s'" using assms(2) by (simp add: run_re_no_calls)
  have i: "hook_inv s" using hook_inv_run [OF hook_inv_initial r1] .
  have a: "att_ok s" and l: "life_ok s" using i by (simp_all add: hook_inv_def)
  have d: "dormant (disconnect s)" using l by (rule disconnect_dormant)
  note r = dormant_run [OF d r2 assms(3)]
  have p1: "timers (disconnect s) = []" "eventSourceRef (disconnect s) = None"
      "dispatchersRef (disconnect s) = []"
    using d by (simp_all add: dormant_def)
  have p2: "destroyedRef (disconnect s)"
    by (simp add: disconnect_def Let_def cleanup_fields)
  have p3: "\<forall>e \<in> set (sources (disconnect s)). es_readyState e = 2"
    using d by (simp add: dormant_def ready_def)
  have p4: "\<forall>h. eventSourceRef s = Some h \<longrightarrow> es_listeners (sources (disconnect s) ! h) = []"
  proof (intro allI impI)
    fix h assume h: "eventSourceRef s = Some h"
    have "att_ok (s\<lparr>destroyedRef := True\<rparr>)" using a by (simp add: att_ok_def named_def)
    from cleanup_detaches [OF this, of h] h
    show "es_listeners (sources (disconnect s) ! h) = []"
      by (simp add: disconnect_def Let_def)
  qed
  have p5: "\<forall>e \<in> set evs'. \<not> platform_event e" using r by simp
  have p6: "\<forall>e. platform_event e \<longrightarrow> step_re cfg no_calls e s' = None"
    using r dormant_blocks by (simp add: step_re_no_calls)
  have p7: "timers s' = []" using r by (simp add: dormant_def)
  have p8: "trace s' = trace (disconnect s)" using r by simp
  have p9: "trace (disconnect s) = trace s"
    by (simp add: disconnect_def Let_def cleanup_fields)
  show ?thesis using p1 p2 p3 p4 p5 p6 p7 p8 p9 by blast
qed

subsection \<open>A timer that outlives \<open>disconnect\<close>\<close>

text \<open>
  Handler 1 calls \<open>connect\<close> when it is given the error event 7, and nothing otherwise.
\<close>

definition retries_first_error :: behaviour where
  "retries_first_error fn args = (if fn = 1 \<and> args = [AErrorEvent 7] then [CallConnect] else [])"

lemmas hook_eval_re =
  hook_eval2 quiet_def retries_first_error_def onerror_re_def emit_re_def invoke_re_def
  hcall_step_def

text \<open>
  C4. The claim fails on the code, by a slip in \<open>scheduleReconnect\<close>: it stores the new
  timer in \<open>timerRef\<close> without clearing the one that may still be pending there, and
  \<open>cleanup\<close>, which \<open>disconnect\<close> runs, clears only the timer that \<open>timerRef\<close>
  names. A timer is pending beside a live \<open>EventSource\<close> once an \<open>error\<close> handler has
  called \<open>connect\<close>: \<open>onerror\<close> emits before it tests whether its source is closed,
  the handler's \<open>connect\<close> opens a new source, and \<open>scheduleReconnect\<close> then arms a
  timer. When the new source fails in turn before that timer fires, a second timer takes
  its place in \<open>timerRef\<close>. \<open>disconnect\<close> cancels the second. The first is still
  pending; it fires, and its \<open>connect\<close> resets \<open>destroyedRef\<close> and opens a third
  \<open>EventSource\<close>, though the application has not called \<open>connect\<close> again.
\<close>

theorem leaked_timer_fires_after_disconnect:
  "(\<exists>s s'. run_re (default_config ''/api/sse'' quiet) retries_first_error
              [Subscribe ''error'' 1, Connect, EsError 0 7 True, EsError 1 8 True, Disconnect]
              (initial (default_config ''/api/sse'' quiet) None) = Some s
         \<and> destroyedRef s \<and> eventSourceRef s = None \<and> timerRef s = None
         \<and> map es_readyState (sources s) = [2, 2]
         \<and> timers s = [(1, 1000)]
         \<and> step_re (default_config ''/api/sse'' quiet) retries_first_error (TimerFire 1) s = Some s'
         \<and> \<not> destroyedRef s' \<and> eventSourceRef s' = Some 2
         \<and> map es_readyState (sources s') = [2, 2, 0])"
proof -
  let ?cfg = "default_config ''/api/sse'' quiet"
  obtain s where s: "run_re ?cfg retries_first_error
              [Subscribe ''error'' 1, Connect, EsError 0 7 True, EsError 1 8 True, Disconnect]
              (initial ?cfg None) = Some s"
      and v: "destroyedRef s" "eventSourceRef s = None" "timerRef s = None"
        "map es_readyState (sources s) = [2, 2]" "timers s = [(1, 1000)]"
    by (simp add: hook_eval_re emit_from.simps)
  have len: "length (sources s) = 2" using arg_cong [OF v(4), of length] by simp
  obtain s' where s': "step_re ?cfg retries_first_error (TimerFire 1) s = Some s'"
      and w: "\<not> destroyedRef s'" "eventSourceRef s' = Some 2"
        "map es_readyState (sources s') = [2, 2, 0]"
    using v len by (simp add: connect_def cleanup_def clearTimeout_def Let_def on_source_def
        es_close_def)
  show ?thesis by (intro exI [of _ s] exI [of _ s'] conjI s v s' w)
qed

end
